theory Spec2Isabelle
  imports Complex_Main
begin

section \<open>Circuits, registers and gates\<close>

text \<open>
  The program assembles quantum circuits with a circuit library and hands them to a
  simulator. A circuit is an ordered, append-only list of instructions over qubit
  positions; a gate is the instruction list of the circuit it was made from, over the
  positions \<open>0, 1, ...\<close> of its own qubits. Angles are the exact real numbers the
  source's expressions denote, where the expression has a value.
\<close>

datatype error = ValueError | CircuitError | OverflowError | QiskitError

datatype instr =
    H nat
  | P real nat
  | CP real nat nat
  | Swap nat nat
  | Barrier

type_synonym gate = "instr list"

record circuit =
  num_qubits :: nat
  data :: "instr list"

definition QuantumCircuit :: circuit where
  "QuantumCircuit = \<lparr>num_qubits = 0, data = []\<rparr>"

text \<open>
  The library's register constructor refuses a negative size. A register that has been
  added to a circuit is the list of the positions its qubits got there.
\<close>

definition QuantumRegister :: "int \<Rightarrow> error + nat" where
  "QuantumRegister sz = (if sz < 0 then Inl CircuitError else Inr (nat sz))"

definition add_register :: "circuit \<Rightarrow> nat \<Rightarrow> circuit \<times> nat list" where
  "add_register qc sz =
     (qc\<lparr>num_qubits := num_qubits qc + sz\<rparr>,
      [num_qubits qc ..< num_qubits qc + sz])"

definition h :: "nat \<Rightarrow> circuit \<Rightarrow> circuit" where
  "h q qc = qc\<lparr>data := data qc @ [H q]\<rparr>"

definition p :: "real \<Rightarrow> nat \<Rightarrow> circuit \<Rightarrow> circuit" where
  "p theta q qc = qc\<lparr>data := data qc @ [P theta q]\<rparr>"

definition cp :: "real \<Rightarrow> nat \<Rightarrow> nat \<Rightarrow> circuit \<Rightarrow> circuit" where
  "cp theta c t qc = qc\<lparr>data := data qc @ [CP theta c t]\<rparr>"

definition swap :: "nat \<Rightarrow> nat \<Rightarrow> circuit \<Rightarrow> circuit" where
  "swap a b qc = qc\<lparr>data := data qc @ [Swap a b]\<rparr>"

definition barrier :: "circuit \<Rightarrow> circuit" where
  "barrier qc = qc\<lparr>data := data qc @ [Barrier]\<rparr>"

text \<open>
  \<open>qc.to_gate()\<close>: the library refuses, with \<open>QiskitError\<close>, a circuit that holds an
  instruction which is not a gate; of the instructions here that is the barrier.
\<close>

fun is_gate :: "instr \<Rightarrow> bool" where
  "is_gate (H q) = True"
| "is_gate (P theta q) = True"
| "is_gate (CP theta c t) = True"
| "is_gate (Swap a b) = True"
| "is_gate Barrier = False"

definition to_gate :: "circuit \<Rightarrow> error + gate" where
  "to_gate qc = (if list_all is_gate (data qc) then Inr (data qc) else Inl QiskitError)"

fun on_qubits :: "nat list \<Rightarrow> instr \<Rightarrow> instr" where
  "on_qubits qs (H q) = H (qs ! q)"
| "on_qubits qs (P theta q) = P theta (qs ! q)"
| "on_qubits qs (CP theta c t) = CP theta (qs ! c) (qs ! t)"
| "on_qubits qs (Swap a b) = Swap (qs ! a) (qs ! b)"
| "on_qubits qs Barrier = Barrier"

text \<open>\<open>qc.append(gate, qubits)\<close>: the gate's instructions, placed on the given qubits.\<close>

definition append_gate :: "gate \<Rightarrow> nat list \<Rightarrow> circuit \<Rightarrow> circuit" where
  "append_gate g qs qc = qc\<lparr>data := data qc @ map (on_qubits qs) g\<rparr>"

fun inverse_instr :: "instr \<Rightarrow> instr" where
  "inverse_instr (H q) = H q"
| "inverse_instr (P theta q) = P (- theta) q"
| "inverse_instr (CP theta c t) = CP (- theta) c t"
| "inverse_instr (Swap a b) = Swap a b"
| "inverse_instr Barrier = Barrier"

text \<open>\<open>gate.inverse()\<close>: the inverted instructions in reverse order.\<close>

definition inverse_gate :: "gate \<Rightarrow> gate" where
  "inverse_gate g = map inverse_instr (rev g)"

definition qubit_list :: "nat list list \<Rightarrow> nat list" where
  "qubit_list registers = concat registers"

section \<open>The gate builders\<close>

text \<open>
  The library's QFT circuit: for \<open>j\<close> from \<open>num_qubits - 1\<close> down to \<open>0\<close> a
  Hadamard on \<open>j\<close>, then controlled phases of angle \<open>pi * 2 ^ (k - j)\<close> between \<open>j\<close>
  and each \<open>k\<close> from \<open>j - 1\<close> down to \<open>j - num_entanglements\<close>, where
  \<open>num_entanglements = max 0 (j - max 0 (approximation_degree - (num_qubits - j - 1)))\<close>;
  then the swaps, then the inversion of the whole. With \<open>insert_barriers\<close> a barrier
  follows the rotations of every \<open>j\<close>, so that the circuit holds instructions that are
  not gates.
\<close>

definition QFT :: "nat \<Rightarrow> nat \<Rightarrow> bool \<Rightarrow> bool \<Rightarrow> bool \<Rightarrow> string option \<Rightarrow> circuit" where
  "QFT n approximation_degree do_swaps is_inverse insert_barriers name =
     (let qc = \<lparr>num_qubits = n, data = []\<rparr>;
          qc = fold (\<lambda>j qc.
                 let qc = h j qc;
                     num_entanglements = j - (approximation_degree - (n - j - 1));
                     qc = fold (\<lambda>k qc. cp (pi / 2 ^ (j - k)) j k qc)
                            (rev [j - num_entanglements ..< j]) qc
                 in if insert_barriers then barrier qc else qc)
               (rev [0 ..< n]) qc;
          qc = (if do_swaps
                then fold (\<lambda>i qc. swap i (n - i - 1) qc) [0 ..< n div 2] qc
                else qc)
      in if is_inverse then qc\<lparr>data := inverse_gate (data qc)\<rparr> else qc)"

definition QFTGate :: "nat \<Rightarrow> nat \<Rightarrow> bool \<Rightarrow> bool \<Rightarrow> bool \<Rightarrow> string option \<Rightarrow> error + gate" where
  "QFTGate n approximation_degree do_swaps is_inverse insert_barriers name =
     to_gate (QFT n approximation_degree do_swaps is_inverse insert_barriers name)"

text \<open>
  The angle \<open>2*np.pi/(2**e)\<close> of a rotation: a float divided by the integer \<open>2**e\<close>.
  The integer is converted to a float for the division, and the conversion raises
  \<open>OverflowError\<close> when the integer is beyond the range of a float, that is from
  \<open>e = 1024\<close> on. The exception leaves the loops and the builder at once.
\<close>

definition rotation_angle :: "nat \<Rightarrow> error + real" where
  "rotation_angle e = (if 1024 \<le> e then Inl OverflowError else Inr (2 * pi / 2 ^ e))"

definition AdderPhaseGate :: "int \<Rightarrow> int \<Rightarrow> error + gate" where
  "AdderPhaseGate target_reg_length summand_reg_length =
     (case QuantumRegister target_reg_length of Inl e \<Rightarrow> Inl e | Inr tr \<Rightarrow>
     (case QuantumRegister summand_reg_length of Inl e \<Rightarrow> Inl e | Inr sr \<Rightarrow>
        let qc = QuantumCircuit;
            (qc, target_reg) = add_register qc tr;
            (qc, summand_reg) = add_register qc sr;
            r = fold (\<lambda>i r.
                  fold (\<lambda>j r. case r of Inl e \<Rightarrow> Inl e | Inr qc \<Rightarrow>
                         (case rotation_angle (1 + i - j) of Inl e \<Rightarrow> Inl e
                          | Inr theta \<Rightarrow> Inr (cp theta (summand_reg ! j) (target_reg ! i) qc)))
                    [0 ..< min (i + 1) (nat summand_reg_length)] r)
                [0 ..< nat target_reg_length] (Inr qc)
        in (case r of Inl e \<Rightarrow> Inl e | Inr qc \<Rightarrow> to_gate qc)))"

text \<open>
  \<open>bin(k)\<close> is the string \<open>0b...\<close> (with a leading \<open>-\<close> for a negative number), the
  slice \<open>[-1:1:-1]\<close> reads it backwards from its last character down to index 2, and
  \<open>int(bit)\<close> raises \<open>ValueError\<close> on a character that is not a digit.
\<close>

fun bin_digits :: "nat \<Rightarrow> string" where
  "bin_digits n =
     (if n < 2 then [if n = 0 then CHR ''0'' else CHR ''1'']
      else bin_digits (n div 2) @ [if n mod 2 = 0 then CHR ''0'' else CHR ''1''])"

definition bin :: "int \<Rightarrow> string" where
  "bin k = (if k < 0 then ''-0b'' @ bin_digits (nat (- k)) else ''0b'' @ bin_digits (nat k))"

definition slice_back_to_1 :: "string \<Rightarrow> string" where
  "slice_back_to_1 s = rev (drop 2 s)"

definition int_of_char :: "char \<Rightarrow> error + int" where
  "int_of_char c =
     (if c \<in> set ''0123456789'' then Inr (int (of_char c) - 48) else Inl ValueError)"

fun ints_of_string :: "string \<Rightarrow> error + int list" where
  "ints_of_string [] = Inr []"
| "ints_of_string (c # cs) =
     (case int_of_char c of Inl e \<Rightarrow> Inl e | Inr b \<Rightarrow>
     (case ints_of_string cs of Inl e \<Rightarrow> Inl e | Inr bs \<Rightarrow> Inr (b # bs)))"

definition ClassicalAdderPhaseGate :: "int \<Rightarrow> int \<Rightarrow> error + gate" where
  "ClassicalAdderPhaseGate target_reg_length k =
     (let bit_string = slice_back_to_1 (bin k) in
      case ints_of_string bit_string of Inl e \<Rightarrow> Inl e | Inr bits \<Rightarrow>
     (case QuantumRegister target_reg_length of Inl e \<Rightarrow> Inl e | Inr tr \<Rightarrow>
        let qc = QuantumCircuit;
            (qc, target_reg) = add_register qc tr;
            r = fold (\<lambda>i r.
                  fold (\<lambda>j r. case r of Inl e \<Rightarrow> Inl e | Inr qc \<Rightarrow>
                         if bits ! j = 1
                         then (case rotation_angle (1 + i - j) of Inl e \<Rightarrow> Inl e
                               | Inr theta \<Rightarrow> Inr (p theta (target_reg ! i) qc))
                         else Inr qc)
                    [0 ..< min (i + 1) (length bits)] r)
                [0 ..< nat target_reg_length] (Inr qc)
        in (case r of Inl e \<Rightarrow> Inl e | Inr qc \<Rightarrow> to_gate qc)))"

definition AdderGate :: "int \<Rightarrow> int \<Rightarrow> error + gate" where
  "AdderGate target_reg_length summand_reg_length =
     (case QuantumRegister target_reg_length of Inl e \<Rightarrow> Inl e | Inr tr \<Rightarrow>
     (case QuantumRegister summand_reg_length of Inl e \<Rightarrow> Inl e | Inr sr \<Rightarrow>
        let qc = QuantumCircuit;
            (qc, target_reg) = add_register qc tr;
            (qc, summand_reg) = add_register qc sr
        in (case QFTGate (nat target_reg_length) 0 False False False None of Inl e \<Rightarrow> Inl e
            | Inr qft_n \<Rightarrow>
           (case AdderPhaseGate target_reg_length summand_reg_length of Inl e \<Rightarrow> Inl e
            | Inr add_phase_gate \<Rightarrow>
               let qc = append_gate qft_n target_reg qc;
                   qc = append_gate add_phase_gate (qubit_list [target_reg, summand_reg]) qc;
                   qc = append_gate (inverse_gate qft_n) target_reg qc
               in to_gate qc))))"

definition ClassicalAdderGate :: "int \<Rightarrow> int \<Rightarrow> error + gate" where
  "ClassicalAdderGate target_reg_length k =
     (case QuantumRegister target_reg_length of Inl e \<Rightarrow> Inl e | Inr tr \<Rightarrow>
        let qc = QuantumCircuit;
            (qc, target_reg) = add_register qc tr
        in (case QFTGate (nat target_reg_length) 0 False False False None of Inl e \<Rightarrow> Inl e
            | Inr qft_n \<Rightarrow>
           (case ClassicalAdderPhaseGate target_reg_length k of Inl e \<Rightarrow> Inl e
            | Inr add_phase_gate \<Rightarrow>
               let qc = append_gate qft_n target_reg qc;
                   qc = append_gate add_phase_gate (qubit_list [target_reg]) qc;
                   qc = append_gate (inverse_gate qft_n) target_reg qc
               in to_gate qc)))"

text \<open>
  The orchestration: two registers of 3 and 2 qubits, a Hadamard on the lowest summand
  qubit, the quantum adder and the two constant adders, up to the measurement.
\<close>

definition main_circuit :: "error + circuit" where
  "main_circuit =
     (let sol_bits = 3; sum_bits = 2 in
      case QuantumRegister sol_bits of Inl e \<Rightarrow> Inl e | Inr tr \<Rightarrow>
     (case QuantumRegister sum_bits of Inl e \<Rightarrow> Inl e | Inr sr \<Rightarrow>
        let qc = QuantumCircuit;
            (qc, target_reg) = add_register qc tr;
            (qc, summand_reg) = add_register qc sr;
            qc = h (summand_reg ! 0) qc
        in (case AdderGate sol_bits sum_bits of Inl e \<Rightarrow> Inl e | Inr adder_gate \<Rightarrow>
           (case ClassicalAdderGate sol_bits 1 of Inl e \<Rightarrow> Inl e | Inr add_1_gate \<Rightarrow>
           (case ClassicalAdderGate sol_bits 2 of Inl e \<Rightarrow> Inl e | Inr add_2_gate \<Rightarrow>
              let qc = append_gate adder_gate (qubit_list [target_reg, summand_reg]) qc;
                  qc = append_gate add_1_gate (qubit_list [target_reg]) qc;
                  qc = append_gate add_2_gate (qubit_list [target_reg]) qc
              in Inr qc)))))"

section \<open>States and the effect of a gate\<close>

text \<open>
  A state gives every basis index its amplitude; qubit \<open>q\<close> is bit \<open>q\<close> of the index
  (the library's little-endian convention), so with the target register on the qubits
  \<open>0 ..< T\<close> and the summand register above it, target value \<open>x\<close> and summand value
  \<open>s\<close> are the index \<open>x + 2 ^ T * s\<close>. Measuring gives index \<open>b\<close> with probability
  the squared modulus of its amplitude.
\<close>

type_synonym state = "nat \<Rightarrow> complex"

definition ket :: "nat \<Rightarrow> state" where
  "ket x = (\<lambda>b. if b = x then 1 else 0)"

definition swap_bits :: "nat \<Rightarrow> nat \<Rightarrow> nat \<Rightarrow> nat" where
  "swap_bits a c b = (if bit b a = bit b c then b else flip_bit a (flip_bit c b))"

fun apply_instr :: "instr \<Rightarrow> state \<Rightarrow> state" where
  "apply_instr (H q) psi =
     (\<lambda>b. (psi (unset_bit q b) + (if bit b q then - 1 else 1) * psi (set_bit q b))
          / complex_of_real (sqrt 2))"
| "apply_instr (P theta q) psi = (\<lambda>b. if bit b q then cis theta * psi b else psi b)"
| "apply_instr (CP theta c t) psi =
     (\<lambda>b. if bit b c \<and> bit b t then cis theta * psi b else psi b)"
| "apply_instr (Swap a c) psi = (\<lambda>b. psi (swap_bits a c b))"
| "apply_instr Barrier psi = psi"

definition apply_gate :: "gate \<Rightarrow> state \<Rightarrow> state" where
  "apply_gate g psi = fold apply_instr g psi"

definition prob :: "state \<Rightarrow> nat \<Rightarrow> real" where
  "prob psi b = (cmod (psi b))\<^sup>2"

definition reg_index :: "nat \<Rightarrow> nat \<Rightarrow> nat \<Rightarrow> nat" where
  "reg_index T x s = x + 2 ^ T * s"

section \<open>Auxiliary definitions\<close>

text \<open>
  \<open>emit\<close> appends instructions to a circuit. \<open>phase_adder_spec\<close> and
  \<open>classical_phase_adder_spec\<close> are the rotation lists as the specification words them, and
  \<open>lsb_first\<close> is the binary expansion of a number, least significant bit first.
\<close>

definition emit :: "instr list \<Rightarrow> circuit \<Rightarrow> circuit" where
  "emit xs qc = qc\<lparr>data := data qc @ xs\<rparr>"

definition phase_adder_spec :: "nat \<Rightarrow> nat \<Rightarrow> instr list" where
  "phase_adder_spec T S =
     concat (map (\<lambda>i. map (\<lambda>j. CP (2 * pi / 2 ^ (1 + i - j)) (T + j) i) [0 ..< min (i + 1) S])
                 [0 ..< T])"

fun lsb_first :: "nat \<Rightarrow> bool list" where
  "lsb_first n = (if n < 2 then [n = 1] else (n mod 2 = 1) # lsb_first (n div 2))"

definition classical_phase_adder_spec :: "nat \<Rightarrow> nat \<Rightarrow> instr list" where
  "classical_phase_adder_spec T k =
     concat (map (\<lambda>i. map (\<lambda>j. P (2 * pi / 2 ^ (1 + i - j)) i)
                        (filter (\<lambda>j. lsb_first k ! j) [0 ..< min (i + 1) (length (lsb_first k))]))
                 [0 ..< T])"


definition pstate :: "nat \<Rightarrow> (nat \<Rightarrow> complex \<times> complex) \<Rightarrow> state" where
  "pstate n f b =
     (if b < 2 ^ n then (\<Prod>q<n. if bit b q then snd (f q) else fst (f q)) else 0)"

datatype qdesc = Basis bool | Phase complex

fun amp :: "qdesc \<Rightarrow> complex \<times> complex" where
  "amp (Basis v) = (if v then (0, 1) else (1, 0))"
| "amp (Phase z) = (1 / complex_of_real (sqrt 2), z / complex_of_real (sqrt 2))"

definition dstate :: "nat \<Rightarrow> (nat \<Rightarrow> qdesc) \<Rightarrow> state" where
  "dstate n d = pstate n (\<lambda>q. amp (d q))"

definition w :: "nat \<Rightarrow> int \<Rightarrow> complex" where
  "w e a = cis (2 * pi * real_of_int a / 2 ^ e)"

definition qft_block :: "nat \<Rightarrow> instr list" where
  "qft_block j = H j # map (\<lambda>k. CP (pi / 2 ^ (j - k)) j k) (rev [0 ..< j])"

definition qft_spec :: "nat \<Rightarrow> instr list" where
  "qft_spec n = concat (map qft_block (rev [0 ..< n]))"

text \<open>The instructions of the library's QFT circuit before the inversion.\<close>

definition qft_core :: "nat \<Rightarrow> nat \<Rightarrow> bool \<Rightarrow> bool \<Rightarrow> instr list" where
  "qft_core n approximation_degree do_swaps insert_barriers =
     concat (map (\<lambda>j. (H j # map (\<lambda>k. CP (pi / 2 ^ (j - k)) j k)
                              (rev [j - (j - (approximation_degree - (n - j - 1))) ..< j]))
                       @ (if insert_barriers then [Barrier] else []))
                 (rev [0 ..< n]))
     @ (if do_swaps then map (\<lambda>i. Swap i (n - i - 1)) [0 ..< n div 2] else [])"

fun instr_qubits :: "instr \<Rightarrow> nat list" where
  "instr_qubits (H q) = [q]"
| "instr_qubits (P theta q) = [q]"
| "instr_qubits (CP theta c t) = [c, t]"
| "instr_qubits (Swap a b) = [a, b]"
| "instr_qubits Barrier = []"

definition qubits_below :: "nat \<Rightarrow> instr list \<Rightarrow> bool" where
  "qubits_below n g = (\<forall>i \<in> set g. \<forall>q \<in> set (instr_qubits i). q < n)"



section \<open>The rotation lists of the phase adders\<close>

declare lsb_first.simps [simp del]

declare bin_digits.simps [simp del]

lemma emit_Nil [simp]: "emit [] qc = qc"
  by (simp add: emit_def)

lemma emit_emit [simp]: "emit ys (emit xs qc) = emit (xs @ ys) qc"
  by (simp add: emit_def)

lemma data_emit [simp]: "data (emit xs qc) = data qc @ xs"
  by (simp add: emit_def)

lemma fold_emit: "fold (\<lambda>x qc. emit (f x) qc) xs qc = emit (concat (map f xs)) qc"
  by (induction xs arbitrary: qc) simp_all

lemma cp_emit: "cp theta c t = emit [CP theta c t]"
  by (rule ext) (simp add: cp_def emit_def)

lemma p_emit: "p theta q = emit [P theta q]"
  by (rule ext) (simp add: p_def emit_def)

lemma h_emit: "h q = emit [H q]"
  by (rule ext) (simp add: h_def emit_def)


lemma fold_err_ok:
  assumes "\<And>x qc. x \<in> set xs \<Longrightarrow> step x (Inr qc) = Inr (emit (g x) qc)"
  shows "fold step xs (Inr qc) = Inr (emit (concat (map g xs)) qc)"
  using assms by (induction xs arbitrary: qc) simp_all



lemma concat_singletons: "concat (map (\<lambda>x. [f x]) xs) = map f xs"
  by (induction xs) simp_all

lemma concat_filter: "concat (map (\<lambda>x. if c x then [f x] else []) xs) = map f (filter c xs)"
  by (induction xs) simp_all

lemma rotation_angle_ok: "e < 1024 \<Longrightarrow> rotation_angle e = Inr (2 * pi / 2 ^ e)"
  by (simp add: rotation_angle_def)



lemma to_gate_emit:
  "list_all is_gate xs \<Longrightarrow> to_gate (emit xs \<lparr>num_qubits = n, data = []\<rparr>) = Inr xs"
  by (simp add: to_gate_def)

lemma gates_phase_adder: "list_all is_gate (phase_adder_spec T S)"
  by (auto simp: list_all_iff phase_adder_spec_def)

lemma gates_classical: "list_all is_gate (classical_phase_adder_spec T k)"
  by (auto simp: list_all_iff classical_phase_adder_spec_def)

lemma AdderPhaseGate_unfold:
  assumes "0 \<le> T" "0 \<le> S"
  shows "AdderPhaseGate T S =
    (case fold (\<lambda>i r.
             fold (\<lambda>j r. case r of Inl e \<Rightarrow> Inl e | Inr qc \<Rightarrow>
                    (case rotation_angle (1 + i - j) of Inl e \<Rightarrow> Inl e
                     | Inr theta \<Rightarrow> Inr (cp theta ([nat T ..< nat T + nat S] ! j) ([0 ..< nat T] ! i) qc)))
               [0 ..< min (i + 1) (nat S)] r)
           [0 ..< nat T] (Inr \<lparr>num_qubits = nat T + nat S, data = []\<rparr>)
     of Inl e \<Rightarrow> Inl e | Inr qc \<Rightarrow> to_gate qc)"
  using assms
  by (simp add: AdderPhaseGate_def QuantumRegister_def add_register_def QuantumCircuit_def Let_def
      cong: sum.case_cong)

lemma AdderPhaseGate_eq:
  assumes "0 \<le> T" "0 \<le> S" "T \<le> 1023 \<or> S = 0"
  shows "AdderPhaseGate T S = Inr (phase_adder_spec (nat T) (nat S))"
proof -
  define inner where "inner = (\<lambda>i j (r :: error + circuit). case r of Inl e \<Rightarrow> Inl e | Inr qc \<Rightarrow>
       (case rotation_angle (1 + i - j) of Inl e \<Rightarrow> Inl e
        | Inr theta \<Rightarrow> Inr (cp theta ([nat T ..< nat T + nat S] ! j) ([0 ..< nat T] ! i) qc)))"
  have step: "inner i j (Inr qc) = Inr (emit [CP (2 * pi / 2 ^ (1 + i - j)) (nat T + j) i] qc)"
    if "i < nat T" "j < min (i + 1) (nat S)" for i j qc
  proof -
    from that assms(3) have "1 + i - j < 1024" by auto
    then have "rotation_angle (1 + i - j) = Inr (2 * pi / 2 ^ (1 + i - j))"
      by (rule rotation_angle_ok)
    with that show ?thesis by (simp add: inner_def cp_emit)
  qed
  have row: "fold (inner i) [0 ..< min (i + 1) (nat S)] (Inr qc)
      = Inr (emit (map (\<lambda>j. CP (2 * pi / 2 ^ (1 + i - j)) (nat T + j) i) [0 ..< min (i + 1) (nat S)]) qc)"
    if "i < nat T" for i qc
  proof -
    have "fold (inner i) [0 ..< min (i + 1) (nat S)] (Inr qc)
        = Inr (emit (concat (map (\<lambda>j. [CP (2 * pi / 2 ^ (1 + i - j)) (nat T + j) i])
                 [0 ..< min (i + 1) (nat S)])) qc)"
      by (rule fold_err_ok) (simp add: step that)
    then show ?thesis by (simp only: concat_singletons)
  qed
  have "fold (\<lambda>i r. fold (inner i) [0 ..< min (i + 1) (nat S)] r) [0 ..< nat T] (Inr qc)
      = Inr (emit (phase_adder_spec (nat T) (nat S)) qc)" for qc
    unfolding phase_adder_spec_def by (rule fold_err_ok) (rule row, simp)
  then show ?thesis
    unfolding AdderPhaseGate_unfold [OF assms(1,2)] inner_def
    by (simp add: to_gate_emit gates_phase_adder)
qed


lemma rev_bin_digits:
  "rev (bin_digits n) = map (\<lambda>b. if b then CHR ''1'' else CHR ''0'') (lsb_first n)"
proof (induction n rule: bin_digits.induct)
  case (1 n)
  show ?case
  proof (cases "n < 2")
    case True
    then show ?thesis
      by (subst bin_digits.simps, subst lsb_first.simps) auto
  next
    case False
    with 1 show ?thesis
      by (subst bin_digits.simps, subst lsb_first.simps) auto
  qed
qed

lemma ints_of_string_bits:
  "ints_of_string (map (\<lambda>b. if b then CHR ''1'' else CHR ''0'') bs)
     = Inr (map (\<lambda>b. if b then 1 else 0) bs)"
  by (induction bs) (simp_all add: int_of_char_def)

lemma ints_of_string_b: "ints_of_string (cs @ ''b'') = Inl ValueError"
proof (induction cs)
  case Nil
  show ?case by (simp add: int_of_char_def)
next
  case (Cons c cs)
  then show ?case by (simp add: int_of_char_def split: sum.splits)
qed

lemma bits_nonneg:
  "0 \<le> k \<Longrightarrow> ints_of_string (slice_back_to_1 (bin k))
      = Inr (map (\<lambda>b. if b then 1 else 0) (lsb_first (nat k)))"
  by (simp add: slice_back_to_1_def bin_def rev_bin_digits ints_of_string_bits)

lemma bits_neg: "k < 0 \<Longrightarrow> ints_of_string (slice_back_to_1 (bin k)) = Inl ValueError"
  using ints_of_string_b [of "rev (bin_digits (nat (- k)))"]
  by (simp add: slice_back_to_1_def bin_def)

lemma lsb_first_nth: "j < length (lsb_first n) \<Longrightarrow> lsb_first n ! j = bit n j"
proof (induction n arbitrary: j rule: lsb_first.induct)
  case (1 n)
  show ?case
  proof (cases "n < 2")
    case True
    then have "n = 0 \<or> n = 1" by auto
    with True "1.prems" show ?thesis
      by (subst (asm) lsb_first.simps, subst lsb_first.simps) (auto simp: bit_0)
  next
    case False
    show ?thesis
    proof (cases j)
      case 0
      with False show ?thesis
        by (subst lsb_first.simps) (auto simp: bit_0 odd_iff_mod_2_eq_one)
    next
      case (Suc j')
      with False "1.prems" have "j' < length (lsb_first (n div 2))"
        by (subst (asm) lsb_first.simps) simp
      with False 1 have "lsb_first (n div 2) ! j' = bit (n div 2) j'" by simp
      with False Suc show ?thesis
        by (subst lsb_first.simps) (simp add: bit_Suc)
    qed
  qed
qed

lemma lsb_first_bound: "n < 2 ^ length (lsb_first n)"
proof (induction n rule: lsb_first.induct)
  case (1 n)
  show ?case
  proof (cases "n < 2")
    case True
    then show ?thesis by (subst lsb_first.simps) simp
  next
    case False
    with 1 have "n div 2 < 2 ^ length (lsb_first (n div 2))" by simp
    with False show ?thesis by (subst lsb_first.simps) auto
  qed
qed


lemma ClassicalAdderPhaseGate_unfold:
  assumes "0 \<le> T" "0 \<le> k"
  shows "ClassicalAdderPhaseGate T k =
    (case fold (\<lambda>i r.
             fold (\<lambda>j r. case r of Inl e \<Rightarrow> Inl e | Inr qc \<Rightarrow>
                    if map (\<lambda>b. if b then 1 else (0::int)) (lsb_first (nat k)) ! j = 1
                    then (case rotation_angle (1 + i - j) of Inl e \<Rightarrow> Inl e
                          | Inr theta \<Rightarrow> Inr (p theta ([0 ..< nat T] ! i) qc))
                    else Inr qc)
               [0 ..< min (i + 1) (length (lsb_first (nat k)))] r)
           [0 ..< nat T] (Inr \<lparr>num_qubits = nat T, data = []\<rparr>)
     of Inl e \<Rightarrow> Inl e | Inr qc \<Rightarrow> to_gate qc)"
  using assms
  by (simp add: ClassicalAdderPhaseGate_def bits_nonneg QuantumRegister_def add_register_def
      QuantumCircuit_def Let_def cong: sum.case_cong if_cong)

lemma ClassicalAdderPhaseGate_eq:
  assumes "0 \<le> T" "0 \<le> k" "\<And>j. bit (nat k) j \<Longrightarrow> nat T \<le> j + 1023"
  shows "ClassicalAdderPhaseGate T k = Inr (classical_phase_adder_spec (nat T) (nat k))"
proof -
  define bs where "bs = lsb_first (nat k)"
  define inner where "inner = (\<lambda>i j (r :: error + circuit). case r of Inl e \<Rightarrow> Inl e | Inr qc \<Rightarrow>
       if map (\<lambda>b. if b then 1 else (0::int)) bs ! j = 1
       then (case rotation_angle (1 + i - j) of Inl e \<Rightarrow> Inl e
             | Inr theta \<Rightarrow> Inr (p theta ([0 ..< nat T] ! i) qc))
       else Inr qc)"
  have step: "inner i j (Inr qc)
      = Inr (emit (if bs ! j then [P (2 * pi / 2 ^ (1 + i - j)) i] else []) qc)"
    if "i < nat T" "j < min (i + 1) (length bs)" for i j qc
  proof (cases "bs ! j")
    case True
    with that have "bit (nat k) j" by (simp add: bs_def lsb_first_nth)
    then have "nat T \<le> j + 1023" by (rule assms(3))
    with that have "1 + i - j < 1024" by auto
    then have "rotation_angle (1 + i - j) = Inr (2 * pi / 2 ^ (1 + i - j))"
      by (rule rotation_angle_ok)
    with that True show ?thesis by (simp add: inner_def p_emit)
  next
    case False
    with that show ?thesis by (simp add: inner_def)
  qed
  have row: "fold (inner i) [0 ..< min (i + 1) (length bs)] (Inr qc)
      = Inr (emit (map (\<lambda>j. P (2 * pi / 2 ^ (1 + i - j)) i)
                (filter (\<lambda>j. bs ! j) [0 ..< min (i + 1) (length bs)])) qc)"
    if "i < nat T" for i qc
  proof -
    have "fold (inner i) [0 ..< min (i + 1) (length bs)] (Inr qc)
        = Inr (emit (concat (map (\<lambda>j. if bs ! j then [P (2 * pi / 2 ^ (1 + i - j)) i] else [])
                 [0 ..< min (i + 1) (length bs)])) qc)"
      by (rule fold_err_ok) (simp add: step that)
    then show ?thesis by (simp only: concat_filter)
  qed
  have all: "fold (\<lambda>i r. fold (inner i) [0 ..< min (i + 1) (length bs)] r) [0 ..< nat T] (Inr qc)
      = Inr (emit (classical_phase_adder_spec (nat T) (nat k)) qc)" for qc
    unfolding classical_phase_adder_spec_def bs_def [symmetric]
    by (rule fold_err_ok) (rule row, simp)
  show ?thesis
    by (simp only: ClassicalAdderPhaseGate_unfold [OF assms(1,2)] bs_def [symmetric]
        all [unfolded inner_def] sum.case to_gate_emit [OF gates_classical])
qed











text \<open>
  Claim C7 says that both phase-adder builders fail for every \<open>target_reg_length \<le> 0\<close>.
  The builders have no check of their own: with length 0 the loops run zero times and an
  empty gate is returned.
\<close>

theorem nonpositive_length_counterexample:
  "AdderPhaseGate 0 1 = Inr [] \<and> ClassicalAdderPhaseGate 0 1 = Inr []"
  by (simp add: AdderPhaseGate_eq ClassicalAdderPhaseGate_eq phase_adder_spec_def
      classical_phase_adder_spec_def)

text \<open>
  Claim C7, amended. For \<open>target_reg_length < 0\<close> both builders fail before any gate is
  made (the register constructor refuses the negative size; with \<open>k < 0\<close> the classical
  builder fails earlier, reading the bits); for \<open>target_reg_length = 0\<close> and a valid second
  argument they return a gate with no rotation.
\<close>

theorem nonpositive_length:
  assumes "T \<le> 0"
  shows "AdderPhaseGate T S = (if T < 0 \<or> S < 0 then Inl CircuitError else Inr [])
       \<and> ClassicalAdderPhaseGate T k
           = (if k < 0 then Inl ValueError else if T < 0 then Inl CircuitError else Inr [])"
proof -
  have "AdderPhaseGate T S = Inl CircuitError" if "T < 0 \<or> S < 0"
    using that by (auto simp: AdderPhaseGate_def QuantumRegister_def)
  moreover have "AdderPhaseGate T S = Inr []" if "\<not> (T < 0 \<or> S < 0)"
    using that assms AdderPhaseGate_eq [of T S] by (simp add: phase_adder_spec_def)
  moreover have "ClassicalAdderPhaseGate T k = Inl ValueError" if "k < 0"
    using that by (simp add: ClassicalAdderPhaseGate_def bits_neg)
  moreover have "ClassicalAdderPhaseGate T k = Inl CircuitError" if "\<not> k < 0" "T < 0"
    using that by (simp add: ClassicalAdderPhaseGate_def bits_nonneg QuantumRegister_def)
  moreover have "ClassicalAdderPhaseGate T k = Inr []" if "\<not> k < 0" "\<not> T < 0"
    using that assms ClassicalAdderPhaseGate_eq [of T k]
    by (simp add: classical_phase_adder_spec_def)
  ultimately show ?thesis by simp
qed

theorem nonpositive_length_witness:
  "AdderPhaseGate (- 1) 2 = Inl CircuitError \<and> ClassicalAdderPhaseGate (- 1) 5 = Inl CircuitError
   \<and> AdderPhaseGate 0 2 = Inr [] \<and> ClassicalAdderPhaseGate 0 5 = Inr []"
  using nonpositive_length [of "- 1" 2 5] nonpositive_length [of 0 2 5] by simp

text \<open>
  Claim C8. For every negative \<open>k\<close>, \<open>ClassicalAdderPhaseGate T k\<close> fails with
  \<open>ValueError\<close>, the exception of an invalid argument value, instead of building a gate:
  the reversed slice of \<open>bin(k)\<close> ends in the character \<open>b\<close>, which \<open>int\<close> refuses.
  This happens before the circuit and the register are created, for every \<open>T\<close>.
\<close>

theorem negative_constant:
  assumes "k < 0"
  shows "ClassicalAdderPhaseGate T k = Inl ValueError"
  using assms by (simp add: ClassicalAdderPhaseGate_def bits_neg)

theorem negative_constant_witness: "ClassicalAdderPhaseGate 3 (- 5) = Inl ValueError"
  using negative_constant [of "- 5" 3] by simp

lemma set_unset [simp]: "set_bit q (unset_bit q (b::nat)) = set_bit q b"
  by (rule bit_eqI) (auto simp: bit_simps)

lemma unset_set [simp]: "unset_bit q (set_bit q (b::nat)) = unset_bit q b"
  by (rule bit_eqI) (auto simp: bit_simps)

lemma unset_unset [simp]: "unset_bit q (unset_bit q (b::nat)) = unset_bit q b"
  by (rule bit_eqI) (auto simp: bit_simps)

lemma set_set [simp]: "set_bit q (set_bit q (b::nat)) = set_bit q b"
  by (rule bit_eqI) (auto simp: bit_simps)

lemma set_bit_id: "bit (b::nat) q \<Longrightarrow> set_bit q b = b"
  by (rule bit_eqI) (auto simp: bit_simps)

lemma unset_bit_id: "\<not> bit (b::nat) q \<Longrightarrow> unset_bit q b = b"
  by (rule bit_eqI) (auto simp: bit_simps)

lemma sqrt2_sq: "complex_of_real (sqrt 2) * complex_of_real (sqrt 2) = 2"
  by (metis of_real_mult of_real_numeral real_sqrt_mult_self abs_numeral)

lemma H_H: "apply_instr (H q) (apply_instr (H q) psi) = psi"
proof (rule ext)
  fix b :: nat
  define r where "r = complex_of_real (sqrt 2)"
  define u where "u = unset_bit q b"
  define s where "s = set_bit q b"
  have rr: "r * r = 2" by (simp add: r_def sqrt2_sq)
  have nz: "r \<noteq> 0" by (simp add: r_def)
  have bu: "\<not> bit u q" and bs: "bit s q" by (simp_all add: u_def s_def bit_simps)
  have uu: "unset_bit q u = u" "set_bit q u = s" "unset_bit q s = u" "set_bit q s = s"
    by (simp_all add: u_def s_def)
  define phi where "phi = apply_instr (H q) psi"
  have Au: "phi u = (psi u + psi s) / r"
    using bu by (simp add: phi_def uu r_def)
  have As: "phi s = (psi u - psi s) / r"
    using bs by (simp add: phi_def uu r_def)
  have half: "(x + x) / r / r = x" for x
  proof -
    have "(x + x) / r / r = (x + x) / (r * r)" by simp
    also have "\<dots> = x" unfolding rr by simp
    finally show ?thesis .
  qed
  have e1: "(x + y) / r + (x - y) / r = (x + x) / r" for x y
    by (simp flip: add_divide_distrib)
  have e2: "(x + y) / r - (x - y) / r = (y + y) / r" for x y
    by (simp flip: diff_divide_distrib)
  have plus: "(phi u + phi s) / r = psi u"
    unfolding Au As e1 by (rule half)
  have minus: "(phi u - phi s) / r = psi s"
    unfolding Au As e2 by (rule half)
  have "apply_instr (H q) phi b = psi b"
  proof (cases "bit b q")
    case True
    then have "s = b" by (simp add: s_def set_bit_id)
    moreover have "apply_instr (H q) phi b = (phi u - phi s) / r"
      using True by (simp add: u_def s_def r_def)
    ultimately show ?thesis using minus by simp
  next
    case False
    then have "u = b" by (simp add: u_def unset_bit_id)
    moreover have "apply_instr (H q) phi b = (phi u + phi s) / r"
      using False by (simp add: u_def s_def r_def)
    ultimately show ?thesis using plus by simp
  qed
  then show "apply_instr (H q) (apply_instr (H q) psi) b = psi b"
    by (simp only: phi_def)
qed

lemma swap_bits_invol: "swap_bits a c (swap_bits a c b) = b"
proof (cases "bit b a = bit b c")
  case True
  then show ?thesis by (simp add: swap_bits_def)
next
  case False
  then have ne: "a \<noteq> c" by auto
  let ?b' = "flip_bit a (flip_bit c b)"
  have "bit ?b' a \<noteq> bit ?b' c" using False ne by (auto simp: bit_simps)
  moreover have "flip_bit a (flip_bit c ?b') = b"
    by (rule bit_eqI) (auto simp: bit_simps)
  ultimately show ?thesis using False by (simp add: swap_bits_def)
qed

lemma apply_inverse_instr: "apply_instr (inverse_instr g) (apply_instr g psi) = psi"
proof (cases g)
  case (H q)
  then show ?thesis by (simp only: inverse_instr.simps H_H)
next
  case (P theta q)
  then show ?thesis by (auto simp: cis_mult fun_eq_iff simp flip: mult.assoc)
next
  case (CP theta c t)
  then show ?thesis by (auto simp: cis_mult fun_eq_iff simp flip: mult.assoc)
next
  case (Swap a c)
  then show ?thesis by (simp add: swap_bits_invol)
next
  case Barrier
  then show ?thesis by simp
qed

lemma inverse_instr_invol [simp]: "inverse_instr (inverse_instr g) = g"
  by (cases g) simp_all

lemma inverse_gate_invol [simp]: "inverse_gate (inverse_gate g) = g"
  by (simp add: inverse_gate_def rev_map comp_def)

lemma apply_gate_Nil [simp]: "apply_gate [] psi = psi"
  by (simp add: apply_gate_def)

lemma apply_gate_Cons [simp]: "apply_gate (g # gs) psi = apply_gate gs (apply_instr g psi)"
  by (simp add: apply_gate_def)

lemma apply_gate_append [simp]: "apply_gate (xs @ ys) psi = apply_gate ys (apply_gate xs psi)"
  by (simp add: apply_gate_def)

lemma inverse_gate_Cons: "inverse_gate (g # gs) = inverse_gate gs @ [inverse_instr g]"
  by (simp add: inverse_gate_def)

lemma inverse_gate_append: "inverse_gate (xs @ ys) = inverse_gate ys @ inverse_gate xs"
  by (simp add: inverse_gate_def)

lemma inverse_gate_snoc: "inverse_gate (xs @ [x]) = inverse_instr x # inverse_gate xs"
  by (simp add: inverse_gate_def)

lemma apply_inverse_gate: "apply_gate (inverse_gate g) (apply_gate g psi) = psi"
proof (induction g arbitrary: psi rule: rev_induct)
  case Nil
  show ?case by (simp add: inverse_gate_def)
next
  case (snoc x xs)
  show ?case
    by (simp add: inverse_gate_snoc apply_inverse_instr snoc del: inverse_instr.simps)
qed


lemma less_exp_iff_drop: "(b::nat) < 2 ^ n \<longleftrightarrow> drop_bit n b = 0"
  by (simp add: drop_bit_eq_div div_eq_0_iff)

lemma less_exp_set_bit: "t < n \<Longrightarrow> set_bit t (b::nat) < 2 ^ n \<longleftrightarrow> b < 2 ^ n"
proof -
  assume "t < n"
  then have "drop_bit n (set_bit t b) = drop_bit n b"
    by (intro bit_eqI) (auto simp: bit_simps)
  then show ?thesis by (simp add: less_exp_iff_drop)
qed

lemma less_exp_unset_bit: "t < n \<Longrightarrow> unset_bit t (b::nat) < 2 ^ n \<longleftrightarrow> b < 2 ^ n"
proof -
  assume "t < n"
  then have "drop_bit n (unset_bit t b) = drop_bit n b"
    by (intro bit_eqI) (auto simp: bit_simps)
  then show ?thesis by (simp add: less_exp_iff_drop)
qed

lemma pstate_split:
  assumes "t < n" "b < 2 ^ n"
  shows "pstate n f b
    = (if bit b t then snd (f t) else fst (f t))
      * (\<Prod>q\<in>{..<n} - {t}. if bit b q then snd (f q) else fst (f q))"
  using assms by (simp add: pstate_def prod.remove [where x = t])

lemma rest_set_bit:
  "(\<Prod>q\<in>{..<n} - {t}. if bit (set_bit t b) q then snd (f q) else fst (f q))
   = (\<Prod>q\<in>{..<n} - {t}. if bit (b::nat) q then snd (f q) else fst (f q))"
  by (rule prod.cong) (auto simp: bit_simps)

lemma rest_unset_bit:
  "(\<Prod>q\<in>{..<n} - {t}. if bit (unset_bit t b) q then snd (f q) else fst (f q))
   = (\<Prod>q\<in>{..<n} - {t}. if bit (b::nat) q then snd (f q) else fst (f q))"
  by (rule prod.cong) (auto simp: bit_simps)

lemma rest_upd:
  "(\<Prod>q\<in>{..<n} - {t}. if bit (b::nat) q then snd ((f(t := v)) q) else fst ((f(t := v)) q))
   = (\<Prod>q\<in>{..<n} - {t}. if bit b q then snd (f q) else fst (f q))"
  by (rule prod.cong) auto

lemma pstate_H:
  assumes "t < n"
  shows "apply_instr (H t) (pstate n f)
    = pstate n (f(t := ((fst (f t) + snd (f t)) / complex_of_real (sqrt 2),
                        (fst (f t) - snd (f t)) / complex_of_real (sqrt 2))))"
proof (rule ext)
  fix b :: nat
  let ?f' = "f(t := ((fst (f t) + snd (f t)) / complex_of_real (sqrt 2),
                      (fst (f t) - snd (f t)) / complex_of_real (sqrt 2)))"
  show "apply_instr (H t) (pstate n f) b = pstate n ?f' b"
  proof (cases "b < 2 ^ n")
    case False
    then show ?thesis
      using assms by (simp add: pstate_def less_exp_set_bit less_exp_unset_bit)
  next
    case True
    define R where "R = (\<Prod>q\<in>{..<n} - {t}. if bit b q then snd (f q) else fst (f q))"
    have u: "pstate n f (unset_bit t b) = fst (f t) * R"
      using assms True
      by (simp add: pstate_split [of t] less_exp_unset_bit rest_unset_bit R_def bit_simps)
    have s: "pstate n f (set_bit t b) = snd (f t) * R"
      using assms True
      by (simp add: pstate_split [of t] less_exp_set_bit rest_set_bit R_def bit_simps)
    have r: "pstate n ?f' b
       = (if bit b t then (fst (f t) - snd (f t)) / complex_of_real (sqrt 2)
          else (fst (f t) + snd (f t)) / complex_of_real (sqrt 2)) * R"
      using assms True by (simp add: pstate_split [of t] rest_upd R_def)
    show ?thesis
      unfolding r apply_instr.simps u s by (simp add: algebra_simps diff_divide_distrib add_divide_distrib)
  qed
qed

lemma pstate_P:
  assumes "t < n"
  shows "apply_instr (P theta t) (pstate n f)
    = pstate n (f(t := (fst (f t), cis theta * snd (f t))))"
proof (rule ext)
  fix b :: nat
  show "apply_instr (P theta t) (pstate n f) b
      = pstate n (f(t := (fst (f t), cis theta * snd (f t)))) b"
  proof (cases "b < 2 ^ n")
    case False
    then show ?thesis by (simp add: pstate_def)
  next
    case True
    then show ?thesis
      using assms by (simp add: pstate_split [of t] rest_upd)
  qed
qed

lemma pstate_zero_fst:
  assumes "c < n" "fst (f c) = 0" "\<not> bit b c"
  shows "pstate n f b = 0"
proof (cases "b < 2 ^ n")
  case True
  with assms show ?thesis by (simp add: pstate_split [of c])
qed (simp add: pstate_def)

lemma pstate_zero_snd:
  assumes "c < n" "snd (f c) = 0" "bit b c"
  shows "pstate n f b = 0"
proof (cases "b < 2 ^ n")
  case True
  with assms show ?thesis by (simp add: pstate_split [of c])
qed (simp add: pstate_def)

lemma pstate_CP_one:
  assumes "c < n" "fst (f c) = 0"
  shows "apply_instr (CP theta c t) (pstate n f) = apply_instr (P theta t) (pstate n f)"
  using assms by (auto simp: fun_eq_iff pstate_zero_fst)

lemma pstate_CP_zero:
  assumes "c < n" "snd (f c) = 0"
  shows "apply_instr (CP theta c t) (pstate n f) = pstate n f"
  using assms by (auto simp: fun_eq_iff pstate_zero_snd)

lemma CP_sym: "apply_instr (CP theta c t) psi = apply_instr (CP theta t c) psi"
  by (auto simp: fun_eq_iff)

declare apply_instr.simps [simp del]

lemma dstate_upd: "dstate n (d(t := v)) = pstate n ((\<lambda>q. amp (d q))(t := amp v))"
  unfolding dstate_def by (rule arg_cong [where f = "pstate n"]) auto

lemma dstate_H_basis:
  assumes "t < n" "d t = Basis v"
  shows "apply_instr (H t) (dstate n d) = dstate n (d(t := Phase (if v then - 1 else 1)))"
proof -
  let ?f = "\<lambda>q. amp (d q)"
  have "((fst (?f t) + snd (?f t)) / complex_of_real (sqrt 2),
         (fst (?f t) - snd (?f t)) / complex_of_real (sqrt 2))
      = amp (Phase (if v then - 1 else 1))"
    using assms(2) by simp
  with pstate_H [OF assms(1), of ?f]
  have "apply_instr (H t) (dstate n d)
      = pstate n (?f(t := amp (Phase (if v then - 1 else 1))))"
    unfolding dstate_def by (simp only:)
  then show ?thesis by (simp only: dstate_upd)
qed

lemma dstate_H_phase:
  assumes "t < n" "d t = Phase z" "z = 1 \<or> z = - 1"
  shows "apply_instr (H t) (dstate n d) = dstate n (d(t := Basis (z = - 1)))"
proof -
  define r where "r = complex_of_real (sqrt 2)"
  let ?f = "\<lambda>q. amp (d q)"
  have rr: "r * r = 2" by (simp add: r_def sqrt2_sq)
  have one: "(1 / r + 1 / r) / r = 1"
  proof -
    have "(1 / r + 1 / r) / r = 2 / (r * r)" by (simp add: field_simps)
    then show ?thesis by (simp add: rr)
  qed
  have ft: "?f t = (1 / r, z / r)" using assms(2) by (simp add: r_def)
  have "((fst (?f t) + snd (?f t)) / r, (fst (?f t) - snd (?f t)) / r) = amp (Basis (z = - 1))"
  proof (cases "z = 1")
    case True
    then show ?thesis unfolding ft using one by simp
  next
    case False
    with assms(3) have z: "z = - 1" by simp
    have "(1 / r - (- 1) / r) / r = (1 / r + 1 / r) / r" by simp
    then show ?thesis unfolding ft z using one by simp
  qed
  with pstate_H [OF assms(1), of ?f]
  have "apply_instr (H t) (dstate n d) = pstate n (?f(t := amp (Basis (z = - 1))))"
    unfolding dstate_def r_def by (simp only:)
  then show ?thesis by (simp only: dstate_upd)
qed

lemma dstate_P:
  assumes "t < n" "d t = Phase z"
  shows "apply_instr (P theta t) (dstate n d) = dstate n (d(t := Phase (z * cis theta)))"
proof -
  let ?f = "\<lambda>q. amp (d q)"
  have "(fst (?f t), cis theta * snd (?f t)) = amp (Phase (z * cis theta))"
    using assms(2) by (simp add: mult.commute)
  with pstate_P [OF assms(1), of theta ?f]
  have "apply_instr (P theta t) (dstate n d) = pstate n (?f(t := amp (Phase (z * cis theta))))"
    unfolding dstate_def by (simp only:)
  then show ?thesis by (simp only: dstate_upd)
qed

lemma dstate_CP:
  assumes "c < n" "t < n" "d c = Basis v" "d t = Phase z"
  shows "apply_instr (CP theta c t) (dstate n d)
       = dstate n (d(t := Phase (z * (if v then cis theta else 1))))"
proof (cases v)
  case True
  then have "apply_instr (CP theta c t) (dstate n d) = apply_instr (P theta t) (dstate n d)"
    unfolding dstate_def using assms by (intro pstate_CP_one) simp_all
  then show ?thesis using True assms by (simp add: dstate_P)
next
  case False
  then have "apply_instr (CP theta c t) (dstate n d) = dstate n d"
    unfolding dstate_def using assms by (intro pstate_CP_zero) simp_all
  moreover have "d(t := Phase z) = d" using assms by auto
  ultimately show ?thesis using False by simp
qed

lemma dstate_CP':
  assumes "c < n" "t < n" "d c = Basis v" "d t = Phase z"
  shows "apply_instr (CP theta t c) (dstate n d)
       = dstate n (d(t := Phase (z * (if v then cis theta else 1))))"
  using dstate_CP [OF assms, where theta = theta] by (simp only: CP_sym [of theta t c])

lemma dstate_CPs:
  assumes "t < n" "d t = Phase z" "\<And>k. k \<in> set ks \<Longrightarrow> c k < n \<and> d (c k) = Basis (v k)"
  shows "apply_gate (map (\<lambda>k. CP (th k) (c k) t) ks) (dstate n d)
       = dstate n (d(t := Phase (z * (\<Prod>k\<leftarrow>ks. if v k then cis (th k) else 1))))"
  using assms
proof (induction ks arbitrary: d z)
  case Nil
  then have "d(t := Phase z) = d" by auto
  then show ?case by simp
next
  case (Cons k ks)
  have ne: "c k' \<noteq> t" if "k' \<in> set (k # ks)" for k'
    using Cons.prems(2) Cons.prems(3) [of k'] that by auto
  let ?d = "d(t := Phase (z * (if v k then cis (th k) else 1)))"
  have step: "apply_instr (CP (th k) (c k) t) (dstate n d) = dstate n ?d"
    using Cons.prems by (intro dstate_CP) auto
  have "apply_gate (map (\<lambda>k. CP (th k) (c k) t) (k # ks)) (dstate n d)
      = apply_gate (map (\<lambda>k. CP (th k) (c k) t) ks) (dstate n ?d)"
    by (simp only: list.map apply_gate_Cons step)
  also have "\<dots> = dstate n (?d(t := Phase (z * (if v k then cis (th k) else 1)
                                   * (\<Prod>k\<leftarrow>ks. if v k then cis (th k) else 1))))"
    using Cons.prems ne by (intro Cons.IH) auto
  also have "?d(t := Phase (z * (if v k then cis (th k) else 1)
                                   * (\<Prod>k\<leftarrow>ks. if v k then cis (th k) else 1)))
      = d(t := Phase (z * (\<Prod>k\<leftarrow>k # ks. if v k then cis (th k) else 1)))"
    by (simp add: mult.assoc)
  finally show ?case .
qed

lemma dstate_CPs':
  assumes "t < n" "d t = Phase z" "\<And>k. k \<in> set ks \<Longrightarrow> c k < n \<and> d (c k) = Basis (v k)"
  shows "apply_gate (map (\<lambda>k. CP (th k) t (c k)) ks) (dstate n d)
       = dstate n (d(t := Phase (z * (\<Prod>k\<leftarrow>ks. if v k then cis (th k) else 1))))"
proof -
  have "apply_gate (map (\<lambda>k. CP (th k) t (c k)) ks) psi
      = apply_gate (map (\<lambda>k. CP (th k) (c k) t) ks) psi" for psi
    by (induction ks arbitrary: psi) (simp_all add: CP_sym [of _ t])
  then show ?thesis using dstate_CPs [OF assms] by simp
qed

lemma dstate_Ps:
  assumes "t < n" "d t = Phase z"
  shows "apply_gate (map (\<lambda>k. P (th k) t) ks) (dstate n d)
       = dstate n (d(t := Phase (z * (\<Prod>k\<leftarrow>ks. cis (th k)))))"
  using assms
proof (induction ks arbitrary: d z)
  case Nil
  then have "d(t := Phase z) = d" by auto
  then show ?case by simp
next
  case (Cons k ks)
  let ?d = "d(t := Phase (z * cis (th k)))"
  have step: "apply_instr (P (th k) t) (dstate n d) = dstate n ?d"
    using Cons.prems by (intro dstate_P) auto
  have "apply_gate (map (\<lambda>k. P (th k) t) (k # ks)) (dstate n d)
      = apply_gate (map (\<lambda>k. P (th k) t) ks) (dstate n ?d)"
    by (simp only: list.map apply_gate_Cons step)
  also have "\<dots> = dstate n (?d(t := Phase (z * cis (th k) * (\<Prod>k\<leftarrow>ks. cis (th k)))))"
    using Cons.prems by (intro Cons.IH) auto
  also have "?d(t := Phase (z * cis (th k) * (\<Prod>k\<leftarrow>ks. cis (th k))))
      = d(t := Phase (z * (\<Prod>k\<leftarrow>k # ks. cis (th k))))"
    by (simp add: mult.assoc)
  finally show ?case .
qed

lemma dstate_ket:
  assumes "b < 2 ^ n"
  shows "dstate n (\<lambda>q. Basis (bit b q)) = ket b"
proof (rule ext)
  fix a :: nat
  show "dstate n (\<lambda>q. Basis (bit b q)) a = ket b a"
  proof (cases "a < 2 ^ n")
    case False
    with assms show ?thesis by (auto simp: dstate_def pstate_def ket_def)
  next
    case True
    show ?thesis
    proof (cases "a = b")
      case True
      have "(\<Prod>q<n. if bit b q then snd (amp (Basis (bit b q))) else fst (amp (Basis (bit b q)))) = 1"
        by (intro prod.neutral) auto
      with True assms show ?thesis by (simp add: dstate_def pstate_def ket_def del: amp.simps)
    next
      case False
      then obtain q where q: "bit a q \<noteq> bit b q" by (auto simp: bit_eq_iff)
      have "q < n"
      proof (rule ccontr)
        assume "\<not> q < n"
        then have "n \<le> q" by simp
        have "take_bit n a = a" "take_bit n b = b"
          using True assms by (simp_all add: take_bit_nat_eq_self_iff)
        then have "\<not> bit a q" "\<not> bit b q"
          using \<open>n \<le> q\<close> by (metis bit_take_bit_iff not_le)+
        with q show False by simp
      qed
      have "(\<Prod>q<n. if bit a q then snd (amp (Basis (bit b q))) else fst (amp (Basis (bit b q)))) = 0"
        using \<open>q < n\<close> q by (intro prod_zero) (auto intro!: bexI [of _ q])
      with True False show ?thesis by (simp add: dstate_def pstate_def ket_def del: amp.simps)
    qed
  qed
qed

lemma w_zero [simp]: "w e 0 = 1"
  by (simp add: w_def)

lemma w_add: "w e a * w e b = w e (a + b)"
  by (simp add: w_def cis_mult add_divide_distrib distrib_left)

lemma w_period: "w e (a + 2 ^ e * c) = w e a"
proof -
  have eq: "2 * pi * real_of_int (a + 2 ^ e * c) / 2 ^ e
      = 2 * pi * real_of_int a / 2 ^ e + 2 * pi * real_of_int c"
    by (simp add: field_simps)
  have "w e (a + 2 ^ e * c) = cis (2 * pi * real_of_int (a + 2 ^ e * c) / 2 ^ e)"
    by (simp only: w_def)
  also have "\<dots> = cis (2 * pi * real_of_int a / 2 ^ e + 2 * pi * real_of_int c)"
    by (simp only: eq)
  also have "\<dots> = cis (2 * pi * real_of_int a / 2 ^ e) * cis (2 * pi * real_of_int c)"
    by (simp only: cis_mult)
  also have "\<dots> = w e a"
    by (simp add: w_def)
  finally show ?thesis .
qed

lemma w_cong:
  assumes "a mod 2 ^ e = b mod 2 ^ e"
  shows "w e a = w e b"
proof -
  have "w e x = w e (x mod 2 ^ e)" for x
  proof -
    have "x = x mod 2 ^ e + 2 ^ e * (x div 2 ^ e)" by simp
    then have "w e x = w e (x mod 2 ^ e + 2 ^ e * (x div 2 ^ e))" by simp
    then show ?thesis by (simp only: w_period)
  qed
  from this [of a] this [of b] assms show ?thesis by simp
qed

lemma w_half: "w (Suc q) (2 ^ q * c) = (if even c then 1 else - 1)"
proof -
  have ang: "2 * pi * real_of_int (2 ^ q * c) / 2 ^ Suc q = pi * real_of_int c"
    by (simp add: field_simps)
  have w: "w (Suc q) (2 ^ q * c) = cis (pi * real_of_int c)"
    by (simp only: w_def ang)
  show ?thesis
  proof (cases "even c")
    case True
    then obtain m where "c = 2 * m" by (auto elim: evenE)
    then have "pi * real_of_int c = 2 * pi * real_of_int m" by simp
    then have "cis (pi * real_of_int c) = 1" by (simp only: cis_multiple_2pi Ints_of_int)
    then show ?thesis using True by (simp only: w if_True)
  next
    case False
    then obtain m where "c = 2 * m + 1" by (auto elim: oddE)
    then have "pi * real_of_int c = pi + 2 * pi * real_of_int m" by (simp add: algebra_simps)
    then have "cis (pi * real_of_int c) = cis pi * cis (2 * pi * real_of_int m)"
      by (simp only: cis_mult)
    also have "\<dots> = - 1" by (simp only: cis_multiple_2pi Ints_of_int cis_pi mult_1_right)
    finally show ?thesis using False by (simp only: w if_False)
  qed
qed

lemma cis_qft_angle: "k \<le> q \<Longrightarrow> cis (pi / 2 ^ (q - k)) = w (Suc q) (2 ^ k)"
proof -
  assume "k \<le> q"
  then have "(2::real) ^ Suc q = 2 * 2 ^ k * 2 ^ (q - k)"
    by (simp flip: power_add)
  then have "2 * pi * real_of_int (2 ^ k) / 2 ^ Suc q = pi / 2 ^ (q - k)"
    by (simp add: field_simps)
  then show ?thesis by (simp add: w_def del: power_Suc)
qed

lemma cis_qft_angle_neg: "k \<le> q \<Longrightarrow> cis (- (pi / 2 ^ (q - k))) = w (Suc q) (- (2 ^ k))"
proof -
  assume "k \<le> q"
  then have "(2::real) ^ Suc q = 2 * 2 ^ k * 2 ^ (q - k)"
    by (simp flip: power_add)
  then have "2 * pi * real_of_int (- (2 ^ k)) / 2 ^ Suc q = - (pi / 2 ^ (q - k))"
    by (simp add: field_simps)
  then show ?thesis by (simp add: w_def del: power_Suc)
qed

lemma cis_adder_angle: "j \<le> i \<Longrightarrow> cis (2 * pi / 2 ^ (1 + i - j)) = w (Suc i) (2 ^ j)"
proof -
  assume "j \<le> i"
  then have "1 + i - j = Suc (i - j)" by simp
  moreover have "cis (pi / 2 ^ (i - j)) = w (Suc i) (2 ^ j)"
    using \<open>j \<le> i\<close> by (rule cis_qft_angle)
  ultimately show ?thesis by simp
qed

lemma w_bits:
  "(\<Prod>k\<leftarrow>[0 ..< m]. if bit (a::nat) k then w e (2 ^ k) else 1) = w e (int (take_bit m a))"
proof (induction m)
  case 0
  show ?case by simp
next
  case (Suc m)
  have eq: "int (take_bit m a) + (if bit a m then 2 ^ m else 0) = int (take_bit (Suc m) a)"
    by (simp add: take_bit_Suc_from_most)
  have "(\<Prod>k\<leftarrow>[0 ..< Suc m]. if bit a k then w e (2 ^ k) else 1)
      = w e (int (take_bit m a)) * (if bit a m then w e (2 ^ m) else 1)"
    using Suc by simp
  also have "\<dots> = w e (int (take_bit m a) + (if bit a m then 2 ^ m else 0))"
    by (simp add: w_add)
  finally show ?case by (simp only: eq)
qed

lemma w_bits_neg:
  "(\<Prod>k\<leftarrow>[0 ..< m]. if bit (a::nat) k then w e (- (2 ^ k)) else 1) = w e (- int (take_bit m a))"
proof (induction m)
  case 0
  show ?case by simp
next
  case (Suc m)
  have eq: "- int (take_bit m a) + (if bit a m then - (2 ^ m) else 0) = - int (take_bit (Suc m) a)"
    by (simp add: take_bit_Suc_from_most)
  have "(\<Prod>k\<leftarrow>[0 ..< Suc m]. if bit a k then w e (- (2 ^ k)) else 1)
      = w e (- int (take_bit m a)) * (if bit a m then w e (- (2 ^ m)) else 1)"
    using Suc by simp
  also have "\<dots> = w e (- int (take_bit m a) + (if bit a m then - (2 ^ m) else 0))"
    by (cases "bit a m") (simp_all only: w_add if_True if_False mult_1_right add_0_right)
  finally show ?case by (simp only: eq)
qed

lemma qft_spec_0 [simp]: "qft_spec 0 = []"
  by (simp add: qft_spec_def)

lemma qft_spec_Suc: "qft_spec (Suc n) = qft_block n @ qft_spec n"
  by (simp add: qft_spec_def)

lemma inverse_qft_block:
  "inverse_gate (qft_block j) = map (\<lambda>k. CP (- (pi / 2 ^ (j - k))) j k) [0 ..< j] @ [H j]"
  by (simp add: inverse_gate_def qft_block_def rev_map comp_def)

lemma inverse_qft_spec_Suc:
  "inverse_gate (qft_spec (Suc n)) = inverse_gate (qft_spec n) @ inverse_gate (qft_block n)"
  by (simp add: qft_spec_Suc inverse_gate_append)

lemma qft_phase:
  "(if bit (X::nat) j then - 1 else 1) * (\<Prod>k\<leftarrow>rev [0 ..< j]. if bit X k then cis (pi / 2 ^ (j - k)) else 1)
     = w (Suc j) (int X)"
proof -
  have "(\<Prod>k\<leftarrow>rev [0 ..< j]. if bit X k then cis (pi / 2 ^ (j - k)) else 1)
      = (\<Prod>k\<leftarrow>[0 ..< j]. if bit X k then cis (pi / 2 ^ (j - k)) else 1)"
    by (simp only: prod_list.rev flip: rev_map)
  also have "\<dots> = (\<Prod>k\<leftarrow>[0 ..< j]. if bit X k then w (Suc j) (2 ^ k) else 1)"
    by (intro arg_cong [where f = prod_list] map_cong refl) (simp add: cis_qft_angle)
  also have "\<dots> = w (Suc j) (int (take_bit j X))"
    by (rule w_bits)
  finally have "(if bit X j then - 1 else 1) * (\<Prod>k\<leftarrow>rev [0 ..< j]. if bit X k then cis (pi / 2 ^ (j - k)) else 1)
      = w (Suc j) (2 ^ j * (if bit X j then 1 else 0)) * w (Suc j) (int (take_bit j X))"
    by (simp only: w_half) simp
  also have "\<dots> = w (Suc j) (int (take_bit (Suc j) X))"
    by (simp only: w_add) (simp add: take_bit_Suc_from_most)
  also have "\<dots> = w (Suc j) (int X)"
    by (rule w_cong) (simp add: take_bit_eq_mod of_nat_mod)
  finally show ?thesis .
qed

lemma qft_block_dstate:
  assumes "j < N" "\<And>k. k \<le> j \<Longrightarrow> d k = Basis (bit X k)"
  shows "apply_gate (qft_block j) (dstate N d) = dstate N (d(j := Phase (w (Suc j) (int X))))"
proof -
  let ?d1 = "d(j := Phase (if bit X j then - 1 else 1))"
  have h: "apply_instr (H j) (dstate N d) = dstate N ?d1"
    using assms by (intro dstate_H_basis) auto
  have "apply_gate (map (\<lambda>k. CP (pi / 2 ^ (j - k)) j (id k)) (rev [0 ..< j])) (dstate N ?d1)
      = dstate N (?d1(j := Phase ((if bit X j then - 1 else 1)
           * (\<Prod>k\<leftarrow>rev [0 ..< j]. if bit X k then cis (pi / 2 ^ (j - k)) else 1))))"
    using assms by (intro dstate_CPs') auto
  then have "apply_gate (qft_block j) (dstate N d)
      = dstate N (?d1(j := Phase (w (Suc j) (int X))))"
    by (simp add: qft_block_def h qft_phase)
  then show ?thesis by simp
qed

lemma qft_dstate:
  assumes "n \<le> N" "\<And>k. k < n \<Longrightarrow> d k = Basis (bit X k)"
  shows "apply_gate (qft_spec n) (dstate N d)
       = dstate N (\<lambda>q. if q < n then Phase (w (Suc q) (int X)) else d q)"
  using assms
proof (induction n arbitrary: d)
  case 0
  show ?case by simp
next
  case (Suc n)
  let ?d1 = "d(n := Phase (w (Suc n) (int X)))"
  have "apply_gate (qft_block n) (dstate N d) = dstate N ?d1"
    using Suc.prems by (intro qft_block_dstate) auto
  moreover have "apply_gate (qft_spec n) (dstate N ?d1)
      = dstate N (\<lambda>q. if q < n then Phase (w (Suc q) (int X)) else ?d1 q)"
    using Suc.prems by (intro Suc.IH) auto
  moreover have "(\<lambda>q. if q < n then Phase (w (Suc q) (int X)) else ?d1 q)
      = (\<lambda>q. if q < Suc n then Phase (w (Suc q) (int X)) else d q)"
    by (auto simp: fun_eq_iff less_Suc_eq)
  ultimately show ?case by (simp only: qft_spec_Suc apply_gate_append)
qed

lemma iqft_dstate:
  assumes "n \<le> N" "\<And>q. q < n \<Longrightarrow> d q = Phase (z q)"
    and "\<And>q. q < n \<Longrightarrow> z q * w (Suc q) (- int (take_bit q Y)) = (if bit Y q then - 1 else 1)"
  shows "apply_gate (inverse_gate (qft_spec n)) (dstate N d)
       = dstate N (\<lambda>q. if q < n then Basis (bit Y q) else d q)"
  using assms
proof (induction n)
  case 0
  show ?case by (simp add: inverse_gate_def)
next
  case (Suc n)
  let ?d1 = "\<lambda>q. if q < n then Basis (bit Y q) else d q"
  have 1: "apply_gate (inverse_gate (qft_spec n)) (dstate N d) = dstate N ?d1"
    using Suc.prems by (intro Suc.IH) auto
  have "(\<Prod>k\<leftarrow>[0 ..< n]. if bit Y k then cis (- (pi / 2 ^ (n - k))) else 1)
      = (\<Prod>k\<leftarrow>[0 ..< n]. if bit Y k then w (Suc n) (- (2 ^ k)) else 1)"
    by (intro arg_cong [where f = prod_list] map_cong refl) (simp add: cis_qft_angle_neg)
  also have "\<dots> = w (Suc n) (- int (take_bit n Y))"
    by (rule w_bits_neg)
  finally have pr: "z n * (\<Prod>k\<leftarrow>[0 ..< n]. if bit Y k then cis (- (pi / 2 ^ (n - k))) else 1)
      = (if bit Y n then - 1 else 1)"
    using Suc.prems(3) [of n] by simp
  let ?d2 = "?d1(n := Phase (if bit Y n then - 1 else 1))"
  have "apply_gate (map (\<lambda>k. CP (- (pi / 2 ^ (n - k))) n (id k)) [0 ..< n]) (dstate N ?d1)
      = dstate N (?d1(n := Phase (z n
           * (\<Prod>k\<leftarrow>[0 ..< n]. if bit Y k then cis (- (pi / 2 ^ (n - k))) else 1))))"
    using Suc.prems by (intro dstate_CPs') auto
  then have 2: "apply_gate (map (\<lambda>k. CP (- (pi / 2 ^ (n - k))) n k) [0 ..< n]) (dstate N ?d1)
      = dstate N ?d2"
    by (simp only: pr id_apply)
  have "apply_instr (H n) (dstate N ?d2)
      = dstate N (?d2(n := Basis ((if bit Y n then - 1 else 1) = (- 1 :: complex))))"
    using Suc.prems(1) by (intro dstate_H_phase) auto
  also have "?d2(n := Basis ((if bit Y n then - 1 else 1) = (- 1 :: complex)))
      = (\<lambda>q. if q < Suc n then Basis (bit Y q) else d q)"
    by (auto simp: fun_eq_iff less_Suc_eq)
  finally have 3: "apply_instr (H n) (dstate N ?d2)
      = dstate N (\<lambda>q. if q < Suc n then Basis (bit Y q) else d q)" .
  show ?case
    by (simp only: inverse_qft_spec_Suc inverse_qft_block apply_gate_append 1 2
        apply_gate_Cons apply_gate_Nil 3)
qed

lemma prod_list_filter:
  "(\<Prod>j\<leftarrow>filter c xs. f j) = (\<Prod>j\<leftarrow>xs. if c j then f j else (1::complex))"
  by (induction xs) simp_all

lemma adder_phase:
  assumes "s < 2 ^ S"
  shows "(\<Prod>j\<leftarrow>[0 ..< min (i + 1) S]. if bit (s::nat) j then cis (2 * pi / 2 ^ (1 + i - j)) else 1)
       = w (Suc i) (int s)"
proof -
  have "(\<Prod>j\<leftarrow>[0 ..< min (i + 1) S]. if bit s j then cis (2 * pi / 2 ^ (1 + i - j)) else 1)
      = (\<Prod>j\<leftarrow>[0 ..< min (i + 1) S]. if bit s j then w (Suc i) (2 ^ j) else 1)"
    by (intro arg_cong [where f = prod_list] map_cong refl) (auto simp: cis_adder_angle [simplified])
  also have "\<dots> = w (Suc i) (int (take_bit (min (i + 1) S) s))"
    by (rule w_bits)
  also have "take_bit (min (i + 1) S) s = take_bit (Suc i) (take_bit S s)"
    by simp
  also have "take_bit S s = s"
    using assms by (simp add: take_bit_nat_eq_self_iff)
  also have "w (Suc i) (int (take_bit (Suc i) s)) = w (Suc i) (int s)"
    by (rule w_cong) (simp add: take_bit_eq_mod of_nat_mod)
  finally show ?thesis .
qed

lemma phase_adder_dstate:
  assumes "m \<le> T" "T + S \<le> N" "s < 2 ^ S"
    and "\<And>i. i < T \<Longrightarrow> d i = Phase (z i)"
    and "\<And>j. j < S \<Longrightarrow> d (T + j) = Basis (bit s j)"
  shows "apply_gate (concat (map (\<lambda>i. map (\<lambda>j. CP (2 * pi / 2 ^ (1 + i - j)) (T + j) i)
                                        [0 ..< min (i + 1) S]) [0 ..< m])) (dstate N d)
       = dstate N (\<lambda>q. if q < m then Phase (z q * w (Suc q) (int s)) else d q)"
  using assms(1)
proof (induction m)
  case 0
  show ?case by simp
next
  case (Suc m)
  let ?d1 = "\<lambda>q. if q < m then Phase (z q * w (Suc q) (int s)) else d q"
  have 1: "apply_gate (concat (map (\<lambda>i. map (\<lambda>j. CP (2 * pi / 2 ^ (1 + i - j)) (T + j) i)
                                        [0 ..< min (i + 1) S]) [0 ..< m])) (dstate N d)
      = dstate N ?d1"
    using Suc by simp
  have "apply_gate (map (\<lambda>j. CP (2 * pi / 2 ^ (1 + m - j)) (T + j) m) [0 ..< min (m + 1) S]) (dstate N ?d1)
      = dstate N (?d1(m := Phase (z m
           * (\<Prod>j\<leftarrow>[0 ..< min (m + 1) S]. if bit s j then cis (2 * pi / 2 ^ (1 + m - j)) else 1))))"
    using Suc.prems assms(2,4,5) by (intro dstate_CPs) auto
  also have "?d1(m := Phase (z m
           * (\<Prod>j\<leftarrow>[0 ..< min (m + 1) S]. if bit s j then cis (2 * pi / 2 ^ (1 + m - j)) else 1)))
      = (\<lambda>q. if q < Suc m then Phase (z q * w (Suc q) (int s)) else d q)"
    unfolding adder_phase [OF assms(3)] by (auto simp: fun_eq_iff less_Suc_eq)
  finally have 2: "apply_gate (map (\<lambda>j. CP (2 * pi / 2 ^ (1 + m - j)) (T + j) m) [0 ..< min (m + 1) S]) (dstate N ?d1)
      = dstate N (\<lambda>q. if q < Suc m then Phase (z q * w (Suc q) (int s)) else d q)" .
  show ?case
    by (simp only: upt_Suc_append [OF le0] map_append concat_append list.map concat.simps
        append_Nil2 apply_gate_append 1 2)
qed

lemma classical_phase:
  "(\<Prod>j\<leftarrow>filter (\<lambda>j. lsb_first k ! j) [0 ..< min (i + 1) (length (lsb_first k))].
       cis (2 * pi / 2 ^ (1 + i - j)))
   = w (Suc i) (int k)"
proof -
  let ?L = "length (lsb_first k)"
  have "(\<Prod>j\<leftarrow>filter (\<lambda>j. lsb_first k ! j) [0 ..< min (i + 1) ?L]. cis (2 * pi / 2 ^ (1 + i - j)))
      = (\<Prod>j\<leftarrow>[0 ..< min (i + 1) ?L]. if lsb_first k ! j then cis (2 * pi / 2 ^ (1 + i - j)) else 1)"
    by (rule prod_list_filter)
  also have "\<dots> = (\<Prod>j\<leftarrow>[0 ..< min (i + 1) ?L]. if bit k j then cis (2 * pi / 2 ^ (1 + i - j)) else 1)"
    by (intro arg_cong [where f = prod_list] map_cong refl) (simp add: lsb_first_nth)
  also have "\<dots> = w (Suc i) (int k)"
    by (rule adder_phase) (rule lsb_first_bound)
  finally show ?thesis .
qed

lemma classical_phase_adder_dstate:
  assumes "m \<le> T" "T \<le> N" and "\<And>i. i < T \<Longrightarrow> d i = Phase (z i)"
  shows "apply_gate (concat (map (\<lambda>i. map (\<lambda>j. P (2 * pi / 2 ^ (1 + i - j)) i)
             (filter (\<lambda>j. lsb_first k ! j) [0 ..< min (i + 1) (length (lsb_first k))])) [0 ..< m]))
           (dstate N d)
       = dstate N (\<lambda>q. if q < m then Phase (z q * w (Suc q) (int k)) else d q)"
  using assms(1)
proof (induction m)
  case 0
  show ?case by simp
next
  case (Suc m)
  let ?d1 = "\<lambda>q. if q < m then Phase (z q * w (Suc q) (int k)) else d q"
  let ?js = "filter (\<lambda>j. lsb_first k ! j) [0 ..< min (m + 1) (length (lsb_first k))]"
  have 1: "apply_gate (concat (map (\<lambda>i. map (\<lambda>j. P (2 * pi / 2 ^ (1 + i - j)) i)
             (filter (\<lambda>j. lsb_first k ! j) [0 ..< min (i + 1) (length (lsb_first k))])) [0 ..< m]))
           (dstate N d) = dstate N ?d1"
    using Suc by simp
  have "apply_gate (map (\<lambda>j. P (2 * pi / 2 ^ (1 + m - j)) m) ?js) (dstate N ?d1)
      = dstate N (?d1(m := Phase (z m * (\<Prod>j\<leftarrow>?js. cis (2 * pi / 2 ^ (1 + m - j))))))"
    using Suc.prems assms(2,3) by (intro dstate_Ps) auto
  also have "?d1(m := Phase (z m * (\<Prod>j\<leftarrow>?js. cis (2 * pi / 2 ^ (1 + m - j)))))
      = (\<lambda>q. if q < Suc m then Phase (z q * w (Suc q) (int k)) else d q)"
    unfolding classical_phase by (auto simp: fun_eq_iff less_Suc_eq)
  finally have 2: "apply_gate (map (\<lambda>j. P (2 * pi / 2 ^ (1 + m - j)) m) ?js) (dstate N ?d1)
      = dstate N (\<lambda>q. if q < Suc m then Phase (z q * w (Suc q) (int k)) else d q)" .
  show ?case
    by (simp only: upt_Suc_append [OF le0] map_append concat_append list.map concat.simps
        append_Nil2 apply_gate_append 1 2)
qed

lemma phase_final:
  assumes "q < n"
  shows "w (Suc q) A * w (Suc q) (- int (take_bit q (nat (A mod 2 ^ n))))
       = (if bit (nat (A mod 2 ^ n)) q then - 1 else 1)"
proof -
  define Y where "Y = nat (A mod 2 ^ n)"
  have Y: "int Y = A mod 2 ^ n" by (simp add: Y_def)
  have dvd: "(2::int) ^ Suc q dvd 2 ^ n"
    using assms by (intro le_imp_power_dvd) simp
  have "int (take_bit (Suc q) Y) = int Y mod 2 ^ Suc q"
    by (simp add: take_bit_eq_mod of_nat_mod)
  also have "\<dots> = A mod 2 ^ Suc q"
    unfolding Y using dvd by (rule mod_mod_cancel)
  finally have "A mod 2 ^ Suc q = int (take_bit (Suc q) Y) mod 2 ^ Suc q"
    by simp
  then have "(A - int (take_bit q Y)) mod 2 ^ Suc q
      = (int (take_bit (Suc q) Y) - int (take_bit q Y)) mod 2 ^ Suc q"
    by (rule mod_diff_cong) simp
  also have "int (take_bit (Suc q) Y) - int (take_bit q Y) = 2 ^ q * (if bit Y q then 1 else 0)"
    by (simp add: take_bit_Suc_from_most)
  finally have "w (Suc q) (A - int (take_bit q Y)) = w (Suc q) (2 ^ q * (if bit Y q then 1 else 0))"
    by (rule w_cong)
  also have "\<dots> = (if bit Y q then - 1 else 1)"
    by (simp only: w_half) simp
  finally show ?thesis by (simp add: w_add Y_def)
qed

lemma fold_cp_emit:
  "fold (\<lambda>k qc. cp (th k) (c k) (t k) qc) ks qc = emit (map (\<lambda>k. CP (th k) (c k) (t k)) ks) qc"
  by (induction ks arbitrary: qc) (simp_all add: cp_emit)

lemma is_gate_inverse [simp]: "is_gate (inverse_instr i) = is_gate i"
  by (cases i) simp_all

lemma is_gate_on_qubits [simp]: "is_gate (on_qubits qs i) = is_gate i"
  by (cases i) simp_all

lemma gates_inverse [simp]: "list_all is_gate (inverse_gate g) = list_all is_gate g"
  by (simp add: inverse_gate_def list_all_iff)

lemma gates_on_qubits [simp]: "list_all is_gate (map (on_qubits qs) g) = list_all is_gate g"
  by (simp add: list_all_iff)

lemma gates_qft: "list_all is_gate (qft_spec n)"
  by (auto simp: list_all_iff qft_spec_def qft_block_def)

lemma QFTGate_eq: "QFTGate n 0 False False False None = Inr (qft_spec n)"
proof -
  have blk: "(\<lambda>j qc. let qc = h j qc; num_entanglements = j - (0 - (n - j - 1));
                 qc = fold (\<lambda>k qc. cp (pi / 2 ^ (j - k)) j k qc) (rev [j - num_entanglements ..< j]) qc
               in if False then barrier qc else qc)
      = (\<lambda>j qc. emit (qft_block j) qc)"
    by (intro ext) (simp add: Let_def fold_cp_emit h_emit qft_block_def)
  have "data (QFT n 0 False False False None) = qft_spec n"
    unfolding QFT_def blk by (simp add: Let_def fold_emit qft_spec_def)
  then show ?thesis
    by (simp add: QFTGate_def to_gate_def gates_qft)
qed

lemma on_qubits_id:
  assumes "\<forall>q \<in> set (instr_qubits i). q < n"
  shows "on_qubits [0 ..< n] i = i"
  using assms by (cases i) simp_all

lemma map_on_qubits_id: "qubits_below n g \<Longrightarrow> map (on_qubits [0 ..< n]) g = g"
  by (induction g) (simp_all add: qubits_below_def on_qubits_id)

lemma below_append [simp]: "qubits_below n (xs @ ys) \<longleftrightarrow> qubits_below n xs \<and> qubits_below n ys"
  by (auto simp: qubits_below_def)

lemma below_inverse [simp]: "qubits_below n (inverse_gate g) \<longleftrightarrow> qubits_below n g"
proof -
  have "instr_qubits (inverse_instr i) = instr_qubits i" for i by (cases i) simp_all
  then show ?thesis by (simp add: qubits_below_def inverse_gate_def)
qed

lemma below_mono: "qubits_below n g \<Longrightarrow> n \<le> m \<Longrightarrow> qubits_below m g"
  by (fastforce simp: qubits_below_def)

lemma below_qft: "qubits_below n (qft_spec n)"
  by (auto simp: qubits_below_def qft_spec_def qft_block_def)

lemma below_phase_adder: "qubits_below (T + S) (phase_adder_spec T S)"
  by (auto simp: qubits_below_def phase_adder_spec_def)

lemma below_classical: "qubits_below T (classical_phase_adder_spec T k)"
  by (auto simp: qubits_below_def classical_phase_adder_spec_def)

lemma bit_reg_index:
  assumes "x < 2 ^ T"
  shows "bit (reg_index T x s) q = (if q < T then bit x q else bit s (q - T))"
proof -
  have "reg_index T x s = x + push_bit T s"
    by (simp add: reg_index_def push_bit_eq_mult)
  also have "\<dots> = or x (push_bit T s)"
  proof (rule disjunctive_add)
    fix n
    have "take_bit T x = x" using assms by (simp add: take_bit_nat_eq_self_iff)
    then have "bit x n \<Longrightarrow> n < T" by (metis bit_take_bit_iff)
    then show "\<not> bit x n \<or> \<not> bit (push_bit T s) n" by (auto simp: bit_simps)
  qed
  finally have "bit (reg_index T x s) q \<longleftrightarrow> bit x q \<or> bit (push_bit T s) q"
    by (simp add: bit_simps)
  moreover have "take_bit T x = x" using assms by (simp add: take_bit_nat_eq_self_iff)
  then have "bit x q \<Longrightarrow> q < T" by (metis bit_take_bit_iff)
  ultimately show ?thesis by (auto simp: bit_simps)
qed

lemma reg_index_less:
  assumes "x < 2 ^ T" "s < 2 ^ S"
  shows "reg_index T x s < 2 ^ (T + S)"
proof -
  have "x + 2 ^ T * s < 2 ^ T + 2 ^ T * s" using assms by simp
  also have "\<dots> = 2 ^ T * (s + 1)" by simp
  also have "\<dots> \<le> 2 ^ T * 2 ^ S" using assms by (intro mult_le_mono2) simp
  finally show ?thesis by (simp add: reg_index_def power_add)
qed

lemma AdderGate_eq:
  assumes "0 \<le> T" "0 \<le> S" "T \<le> 1023 \<or> S = 0"
  shows "AdderGate T S
       = Inr (qft_spec (nat T) @ phase_adder_spec (nat T) (nat S) @ inverse_gate (qft_spec (nat T)))"
proof -
  have r: "QuantumRegister T = Inr (nat T)" "QuantumRegister S = Inr (nat S)"
    using assms by (simp_all add: QuantumRegister_def)
  have regs: "[0 ..< nat T] @ [nat T ..< nat T + nat S] = [0 ..< nat T + nat S]"
    by (rule upt_add_eq_append [symmetric]) simp
  have m1: "map (on_qubits [0 ..< nat T]) (qft_spec (nat T)) = qft_spec (nat T)"
    by (intro map_on_qubits_id below_qft)
  have m2: "map (on_qubits [0 ..< nat T + nat S]) (phase_adder_spec (nat T) (nat S))
      = phase_adder_spec (nat T) (nat S)"
    by (intro map_on_qubits_id below_phase_adder)
  have m3: "map (on_qubits [0 ..< nat T]) (inverse_gate (qft_spec (nat T)))
      = inverse_gate (qft_spec (nat T))"
    by (intro map_on_qubits_id) (simp add: below_qft)
  have g: "list_all is_gate
      (qft_spec (nat T) @ phase_adder_spec (nat T) (nat S) @ inverse_gate (qft_spec (nat T)))"
    by (simp add: gates_qft gates_phase_adder)
  show ?thesis
    unfolding AdderGate_def r AdderPhaseGate_eq [OF assms] QFTGate_eq
      add_register_def QuantumCircuit_def to_gate_def append_gate_def qubit_list_def Let_def
    by (simp only: sum.case prod.case circuit.simps concat.simps append_Nil append_Nil2
        add_0 regs m1 m2 m3 append_assoc g if_True)
qed


lemma ClassicalAdderGate_eq:
  assumes "0 \<le> T" "0 \<le> k" "\<And>j. bit (nat k) j \<Longrightarrow> nat T \<le> j + 1023"
  shows "ClassicalAdderGate T k
       = Inr (qft_spec (nat T) @ classical_phase_adder_spec (nat T) (nat k)
              @ inverse_gate (qft_spec (nat T)))"
proof -
  have r: "QuantumRegister T = Inr (nat T)"
    using assms by (simp add: QuantumRegister_def)
  have m1: "map (on_qubits [0 ..< nat T]) (qft_spec (nat T)) = qft_spec (nat T)"
    by (intro map_on_qubits_id below_qft)
  have m2: "map (on_qubits [0 ..< nat T]) (classical_phase_adder_spec (nat T) (nat k))
      = classical_phase_adder_spec (nat T) (nat k)"
    by (intro map_on_qubits_id below_classical)
  have m3: "map (on_qubits [0 ..< nat T]) (inverse_gate (qft_spec (nat T)))
      = inverse_gate (qft_spec (nat T))"
    by (intro map_on_qubits_id) (simp add: below_qft)
  have g: "list_all is_gate
      (qft_spec (nat T) @ classical_phase_adder_spec (nat T) (nat k)
        @ inverse_gate (qft_spec (nat T)))"
    by (simp add: gates_qft gates_classical)
  have ph: "ClassicalAdderPhaseGate T k = Inr (classical_phase_adder_spec (nat T) (nat k))"
    using assms by (intro ClassicalAdderPhaseGate_eq)
  show ?thesis
    unfolding ClassicalAdderGate_def r ph QFTGate_eq
      add_register_def QuantumCircuit_def to_gate_def append_gate_def qubit_list_def Let_def
    by (simp only: sum.case prod.case circuit.simps concat.simps append_Nil append_Nil2
        add_0 m1 m2 m3 append_assoc g if_True)
qed


lemma prob_ket [simp]: "prob (ket b) c = (if c = b then 1 else 0)"
  by (simp add: prob_def ket_def)

lemma adder_core:
  assumes x: "x < 2 ^ T" and s: "s < 2 ^ S"
  shows "apply_gate (qft_spec T @ phase_adder_spec T S @ inverse_gate (qft_spec T))
           (ket (reg_index T x s))
       = ket (reg_index T ((x + s) mod 2 ^ T) s)"
proof -
  define N where "N = T + S"
  define Y where "Y = nat ((int x + int s) mod 2 ^ T)"
  define d0 where "d0 = (\<lambda>q. Basis (bit (reg_index T x s) q))"
  define d1 where "d1 = (\<lambda>q. if q < T then Phase (w (Suc q) (int x)) else d0 q)"
  define d2 where "d2 = (\<lambda>q. if q < T then Phase (w (Suc q) (int x) * w (Suc q) (int s)) else d1 q)"
  define d3 where "d3 = (\<lambda>q. if q < T then Basis (bit Y q) else d2 q)"
  have Y: "Y = (x + s) mod 2 ^ T"
    by (simp add: Y_def nat_mod_distrib nat_add_distrib nat_power_eq)
  have Ylt: "Y < 2 ^ T" by (simp add: Y)
  have 0: "ket (reg_index T x s) = dstate N d0"
    unfolding d0_def N_def by (rule dstate_ket [symmetric]) (rule reg_index_less [OF x s])
  have 1: "apply_gate (qft_spec T) (dstate N d0) = dstate N d1"
    unfolding d1_def
    by (rule qft_dstate) (simp_all add: N_def d0_def bit_reg_index [OF x])
  have 2: "apply_gate (phase_adder_spec T S) (dstate N d1) = dstate N d2"
    unfolding d2_def phase_adder_spec_def
    by (rule phase_adder_dstate [where z = "\<lambda>q. w (Suc q) (int x)" and T = T])
      (simp_all add: N_def s d1_def d0_def bit_reg_index [OF x])
  have 3: "apply_gate (inverse_gate (qft_spec T)) (dstate N d2) = dstate N d3"
    unfolding d3_def
  proof (rule iqft_dstate [where z = "\<lambda>q. w (Suc q) (int x) * w (Suc q) (int s)"])
    show "T \<le> N" by (simp add: N_def)
    show "d2 q = Phase (w (Suc q) (int x) * w (Suc q) (int s))" if "q < T" for q
      using that by (simp add: d2_def)
    show "w (Suc q) (int x) * w (Suc q) (int s) * w (Suc q) (- int (take_bit q Y))
        = (if bit Y q then - 1 else 1)" if "q < T" for q
      unfolding w_add Y_def using phase_final [OF that, of "int x + int s"]
      by (simp only: w_add)
  qed
  have 4: "d3 = (\<lambda>q. Basis (bit (reg_index T Y s) q))"
    by (auto simp: fun_eq_iff d3_def d2_def d1_def d0_def bit_reg_index [OF x]
        bit_reg_index [OF Ylt])
  have "dstate N d3 = ket (reg_index T Y s)"
    unfolding 4 N_def by (rule dstate_ket) (rule reg_index_less [OF Ylt s])
  then show ?thesis
    by (simp only: apply_gate_append 0 1 2 3 Y)
qed

lemma classical_adder_core:
  assumes x: "x < 2 ^ T"
  shows "apply_gate (qft_spec T @ classical_phase_adder_spec T k @ inverse_gate (qft_spec T))
           (ket (reg_index T x r))
       = ket (reg_index T ((x + k) mod 2 ^ T) r)"
proof -
  define N where "N = T + r"
  define Y where "Y = nat ((int x + int k) mod 2 ^ T)"
  define d0 where "d0 = (\<lambda>q. Basis (bit (reg_index T x r) q))"
  define d1 where "d1 = (\<lambda>q. if q < T then Phase (w (Suc q) (int x)) else d0 q)"
  define d2 where "d2 = (\<lambda>q. if q < T then Phase (w (Suc q) (int x) * w (Suc q) (int k)) else d1 q)"
  define d3 where "d3 = (\<lambda>q. if q < T then Basis (bit Y q) else d2 q)"
  have r: "r < 2 ^ r" by (rule less_exp)
  have Y: "Y = (x + k) mod 2 ^ T"
    by (simp add: Y_def nat_mod_distrib nat_add_distrib nat_power_eq)
  have Ylt: "Y < 2 ^ T" by (simp add: Y)
  have 0: "ket (reg_index T x r) = dstate N d0"
    unfolding d0_def N_def by (rule dstate_ket [symmetric]) (rule reg_index_less [OF x r])
  have 1: "apply_gate (qft_spec T) (dstate N d0) = dstate N d1"
    unfolding d1_def
    by (rule qft_dstate) (simp_all add: N_def d0_def bit_reg_index [OF x])
  have 2: "apply_gate (classical_phase_adder_spec T k) (dstate N d1) = dstate N d2"
    unfolding d2_def classical_phase_adder_spec_def
    by (rule classical_phase_adder_dstate [where z = "\<lambda>q. w (Suc q) (int x)" and T = T])
      (simp_all add: N_def d1_def)
  have 3: "apply_gate (inverse_gate (qft_spec T)) (dstate N d2) = dstate N d3"
    unfolding d3_def
  proof (rule iqft_dstate [where z = "\<lambda>q. w (Suc q) (int x) * w (Suc q) (int k)"])
    show "T \<le> N" by (simp add: N_def)
    show "d2 q = Phase (w (Suc q) (int x) * w (Suc q) (int k))" if "q < T" for q
      using that by (simp add: d2_def)
    show "w (Suc q) (int x) * w (Suc q) (int k) * w (Suc q) (- int (take_bit q Y))
        = (if bit Y q then - 1 else 1)" if "q < T" for q
      unfolding w_add Y_def using phase_final [OF that, of "int x + int k"]
      by (simp only: w_add)
  qed
  have 4: "d3 = (\<lambda>q. Basis (bit (reg_index T Y r) q))"
    by (auto simp: fun_eq_iff d3_def d2_def d1_def d0_def bit_reg_index [OF x]
        bit_reg_index [OF Ylt])
  have "dstate N d3 = ket (reg_index T Y r)"
    unfolding 4 N_def by (rule dstate_ket) (rule reg_index_less [OF Ylt r])
  then show ?thesis
    by (simp only: apply_gate_append 0 1 2 3 Y)
qed







lemma fold_swap_emit:
  "fold (\<lambda>i qc. swap (a i) (b i) qc) xs qc = emit (map (\<lambda>i. Swap (a i) (b i)) xs) qc"
  by (induction xs arbitrary: qc) (simp_all add: swap_def emit_def)

lemma QFT_data:
  "data (QFT n approx swaps inverted barriers nm)
     = (if inverted then inverse_gate (qft_core n approx swaps barriers)
        else qft_core n approx swaps barriers)"
proof -
  have blk: "(\<lambda>j qc. let qc = h j qc; num_entanglements = j - (approx - (n - j - 1));
                 qc = fold (\<lambda>k qc. cp (pi / 2 ^ (j - k)) j k qc) (rev [j - num_entanglements ..< j]) qc
               in if barriers then barrier qc else qc)
      = (\<lambda>j qc. emit ((H j # map (\<lambda>k. CP (pi / 2 ^ (j - k)) j k)
                              (rev [j - (j - (approx - (n - j - 1))) ..< j]))
                       @ (if barriers then [Barrier] else [])) qc)"
    by (intro ext) (simp add: Let_def fold_cp_emit h_emit barrier_def emit_def)
  show ?thesis
    unfolding QFT_def blk
    by (simp add: Let_def fold_emit fold_swap_emit qft_core_def)
qed

lemma gates_qft_core: "list_all is_gate (qft_core n approx swaps False)"
  by (auto simp: list_all_iff qft_core_def)

lemma barrier_qft_core:
  assumes "0 < n"
  shows "\<not> list_all is_gate (qft_core n approx swaps True)"
proof -
  have "Barrier \<in> set (qft_core n approx swaps True)"
    using assms by (auto simp: qft_core_def intro!: bexI [of _ 0])
  then have "\<exists>i \<in> set (qft_core n approx swaps True). \<not> is_gate i"
    by (intro bexI [of _ Barrier]) simp_all
  then show ?thesis by (simp add: list_all_iff)
qed

lemma QFTGate_plain:
  "QFTGate n approx swaps inverted False nm
     = Inr (if inverted then inverse_gate (qft_core n approx swaps False)
            else qft_core n approx swaps False)"
  by (simp add: QFTGate_def to_gate_def QFT_data gates_qft_core)

lemma QFTGate_barriers:
  "0 < n \<Longrightarrow> QFTGate n approx swaps inverted True nm = Inl QiskitError"
  by (simp add: QFTGate_def to_gate_def QFT_data barrier_qft_core)

text \<open>
  Claim C9 promises the round trip for every choice of the parameters of \<open>QFTGate\<close>. With
  \<open>insert_barriers = True\<close> no gate is built: the circuit holds barriers, and
  \<open>to_gate\<close> refuses it with \<open>QiskitError\<close>.
\<close>

theorem QFT_round_trip_counterexample:
  "QFTGate 3 0 True False True None = Inl QiskitError"
  by (rule QFTGate_barriers) simp

text \<open>
  Claim C9, amended. For positive \<open>num_qubits\<close> and \<open>insert_barriers = False\<close>, whatever
  the other parameters, \<open>QFTGate\<close> builds a gate, and this gate followed by its inverse
  gives back the state it was applied to, in particular every basis state; the gate built
  with \<open>inverse = True\<close> is this inverse, so the forward gate followed by the gate declared
  inverse with the same parameters (the same \<open>do_swaps\<close> among them) also reproduces the
  basis state exactly. With \<open>insert_barriers = True\<close> the builder raises \<open>QiskitError\<close>
  and builds no gate.
\<close>

theorem QFT_round_trip:
  assumes "0 < n"
  shows "if barriers then QFTGate n approx swaps inverted barriers nm = Inl QiskitError
         else \<exists>g. QFTGate n approx swaps inverted barriers nm = Inr g
          \<and> apply_gate (inverse_gate g) (apply_gate g psi) = psi
          \<and> apply_gate (inverse_gate g) (apply_gate g (ket x)) = ket x
          \<and> (\<exists>f r. QFTGate n approx swaps False barriers nm = Inr f
                \<and> QFTGate n approx swaps True barriers nm = Inr r
                \<and> r = inverse_gate f
                \<and> apply_gate r (apply_gate f (ket x)) = ket x)"
proof (cases barriers)
  case True
  with assms show ?thesis by (simp add: QFTGate_barriers)
next
  case False
  then show ?thesis
    by (simp add: QFTGate_plain apply_inverse_gate)
qed

theorem QFT_round_trip_witness:
  "\<exists>g. QFTGate 2 0 True False False None = Inr g
      \<and> apply_gate (inverse_gate g) (apply_gate g (ket 1)) = ket 1
      \<and> (\<exists>f r. QFTGate 2 0 True False False None = Inr f
            \<and> QFTGate 2 0 True True False None = Inr r
            \<and> r = inverse_gate f
            \<and> apply_gate r (apply_gate f (ket 1)) = ket 1)"
  using QFT_round_trip [of 2 False 0 True False None "ket 1" 1] by simp











text \<open>
  Claim C10. For positive \<open>T\<close> the constant 0 has the bit list \<open>[0]\<close>, so
  \<open>ClassicalAdderPhaseGate T 0\<close> is the gate with no rotation, which leaves every state as
  it is, and the gate of \<open>ClassicalAdderGate T 0\<close> (the QFT followed directly by its
  inverse) leaves every state unchanged too.
\<close>

theorem zero_constant_identity:
  assumes "0 < T"
  shows "ints_of_string (slice_back_to_1 (bin 0)) = Inr [0]
       \<and> ClassicalAdderPhaseGate T 0 = Inr []
       \<and> apply_gate [] psi = psi
       \<and> (\<exists>g. ClassicalAdderGate T 0 = Inr g \<and> apply_gate g psi = psi)"
proof -
  have l: "lsb_first 0 = [False]" by (simp add: lsb_first.simps)
  have bits: "ints_of_string (slice_back_to_1 (bin 0)) = Inr [0]"
    using bits_nonneg [of 0] by (simp add: l)
  have spec: "classical_phase_adder_spec (nat T) 0 = []"
    by (simp add: classical_phase_adder_spec_def l)
  have T: "0 \<le> T" using assms by simp
  have 1: "ClassicalAdderPhaseGate T 0 = Inr []"
    using ClassicalAdderPhaseGate_eq [of T 0] T by (simp add: spec)
  have 2: "ClassicalAdderGate T 0 = Inr (qft_spec (nat T) @ [] @ inverse_gate (qft_spec (nat T)))"
    using ClassicalAdderGate_eq [of T 0] T by (simp add: spec)
  show ?thesis
    unfolding 1 2 using bits by (simp add: apply_inverse_gate)
qed

theorem zero_constant_identity_witness:
  "ClassicalAdderPhaseGate 3 0 = Inr []
       \<and> (\<exists>g. ClassicalAdderGate 3 0 = Inr g \<and> apply_gate g (ket 5) = ket 5)"
  using zero_constant_identity [of 3 "ket 5"] by simp

lemma apply_instr_linear:
  "apply_instr g (\<lambda>b. c * f b + d * f' b)
     = (\<lambda>b. c * apply_instr g f b + d * apply_instr g f' b)"
  by (cases g) (auto simp: apply_instr.simps fun_eq_iff algebra_simps add_divide_distrib)

lemma apply_gate_linear:
  "apply_gate g (\<lambda>b. c * f b + d * f' b)
     = (\<lambda>b. c * apply_gate g f b + d * apply_gate g f' b)"
proof (induction g arbitrary: f f')
  case Nil
  show ?case by simp
next
  case (Cons i g)
  show ?case by (simp only: apply_gate_Cons apply_instr_linear Cons)
qed

lemma bit_8: "bit (8::nat) n \<longleftrightarrow> n = 3"
proof -
  have "bit ((2::nat) ^ 3) n \<longleftrightarrow> n = 3"
    by (simp only: bit_exp_iff) simp
  then show ?thesis by simp
qed

lemma H_ket_0: "apply_instr (H 3) (ket 0)
    = (\<lambda>b. 1 / complex_of_real (sqrt 2) * ket 0 b + 1 / complex_of_real (sqrt 2) * ket 8 b)"
proof (rule ext)
  fix b :: nat
  have s: "set_bit 3 b \<noteq> 0"
  proof
    assume "set_bit 3 b = 0"
    moreover have "bit (set_bit 3 b) 3" by (simp add: bit_simps)
    ultimately show False by simp
  qed
  have u: "unset_bit 3 b = 0 \<longleftrightarrow> b = 0 \<or> b = 8"
  proof
    assume "unset_bit 3 b = 0"
    moreover have "bit (unset_bit 3 b) q = bit b q" if "q \<noteq> 3" for q
      using that by (auto simp: bit_simps)
    ultimately have z: "\<not> bit b q" if "q \<noteq> 3" for q
      using that by simp
    have n0: "\<not> bit (0::nat) n" for n
      by simp
    have "bit b n = bit (if bit b 3 then 8 else (0::nat)) n" for n
    proof (cases "bit b 3")
      case True
      have "bit b n = bit (8::nat) n"
        using z [of n] True bit_8 [of n] by blast
      with True show ?thesis by (simp only: if_True)
    next
      case False
      have "bit b n = bit (0::nat) n"
        using z [of n] False n0 [of n] by blast
      with False show ?thesis by (simp only: if_False)
    qed
    then have "b = (if bit b 3 then 8 else 0)"
      by (intro bit_eqI)
    then show "b = 0 \<or> b = 8" by (auto split: if_splits)
  next
    assume "b = 0 \<or> b = 8"
    then show "unset_bit 3 b = 0"
      by (auto intro!: bit_eqI simp: bit_simps bit_8)
  qed
  show "apply_instr (H 3) (ket 0) b
      = 1 / complex_of_real (sqrt 2) * ket 0 b + 1 / complex_of_real (sqrt 2) * ket 8 b"
    using s u by (auto simp: apply_instr.simps ket_def bit_8)
qed

lemma main_circuit_eq:
  "main_circuit = Inr \<lparr>num_qubits = 5,
     data = H 3 # (qft_spec 3 @ phase_adder_spec 3 2 @ inverse_gate (qft_spec 3))
              @ (qft_spec 3 @ classical_phase_adder_spec 3 1 @ inverse_gate (qft_spec 3))
              @ (qft_spec 3 @ classical_phase_adder_spec 3 2 @ inverse_gate (qft_spec 3))\<rparr>"
proof -
  have r: "QuantumRegister 3 = Inr 3" "QuantumRegister 2 = Inr 2"
    by (simp_all add: QuantumRegister_def)
  have a: "AdderGate 3 2 = Inr (qft_spec 3 @ phase_adder_spec 3 2 @ inverse_gate (qft_spec 3))"
    using AdderGate_eq [of 3 2] by simp
  have c: "ClassicalAdderGate 3 1
      = Inr (qft_spec 3 @ classical_phase_adder_spec 3 1 @ inverse_gate (qft_spec 3))"
    "ClassicalAdderGate 3 2
      = Inr (qft_spec 3 @ classical_phase_adder_spec 3 2 @ inverse_gate (qft_spec 3))"
    using ClassicalAdderGate_eq [of 3 1] ClassicalAdderGate_eq [of 3 2] by simp_all
  have regs: "[0 ..< 3] @ [3 ..< 3 + 2] = [0 ..< 3 + 2]"
    by (rule upt_add_eq_append [symmetric]) simp
  have q: "qubits_below (3 + 2) (qft_spec 3)"
    by (rule below_mono [OF below_qft]) simp
  have m1: "map (on_qubits [0 ..< 3 + 2]) (qft_spec 3 @ phase_adder_spec 3 2 @ inverse_gate (qft_spec 3))
      = qft_spec 3 @ phase_adder_spec 3 2 @ inverse_gate (qft_spec 3)"
    by (intro map_on_qubits_id)
      (simp only: below_append below_inverse q below_phase_adder simp_thms)
  have m2: "map (on_qubits [0 ..< 3]) (qft_spec 3 @ classical_phase_adder_spec 3 k @ inverse_gate (qft_spec 3))
      = qft_spec 3 @ classical_phase_adder_spec 3 k @ inverse_gate (qft_spec 3)" for k
    by (intro map_on_qubits_id)
      (simp only: below_append below_inverse below_qft below_classical simp_thms)
  have s0: "[3 ..< 3 + 2] ! 0 = (3::nat)" by simp
  show ?thesis
    unfolding main_circuit_def Let_def r a c add_register_def QuantumCircuit_def h_def
      append_gate_def qubit_list_def
    by (simp only: sum.case prod.case circuit.simps concat.simps append_Nil append_Nil2
        add_0 regs m1 m2 s0 append_assoc append_Cons)
      simp
qed

text \<open>
  Claim C4. The circuit built by \<open>main\<close> (target register of 3 qubits, summand register of
  2 qubits, a Hadamard gate on the lowest summand qubit, then \<open>AdderGate 3 2\<close>,
  \<open>ClassicalAdderGate 3 1\<close> and \<open>ClassicalAdderGate 3 2\<close>) is built without error and, run on
  the all-zero state, ends in the equal superposition of the basis state with target 3 and
  summand 0 and the basis state with target 4 and summand 1.  Hence the measured target is
  3 with probability 1/2 and 4 with probability 1/2 (also summed over all summand values),
  and the summand register still holds its prepared value: 0 together with target
  \<open>0 + 0 + 1 + 2 = 3\<close>, and 1 together with target \<open>0 + 1 + 1 + 2 = 4\<close>.
\<close>

theorem main_distribution:
  "\<exists>qc. main_circuit = Inr qc
     \<and> apply_gate (data qc) (ket 0)
         = (\<lambda>b. 1 / complex_of_real (sqrt 2) * ket (reg_index 3 3 0) b
               + 1 / complex_of_real (sqrt 2) * ket (reg_index 3 4 1) b)
     \<and> prob (apply_gate (data qc) (ket 0)) (reg_index 3 3 0) = 1 / 2
     \<and> prob (apply_gate (data qc) (ket 0)) (reg_index 3 4 1) = 1 / 2
     \<and> (\<Sum>s<4. prob (apply_gate (data qc) (ket 0)) (reg_index 3 3 s)) = 1 / 2
     \<and> (\<Sum>s<4. prob (apply_gate (data qc) (ket 0)) (reg_index 3 4 s)) = 1 / 2"
proof -
  let ?A = "qft_spec 3 @ phase_adder_spec 3 2 @ inverse_gate (qft_spec 3)"
  let ?C = "\<lambda>k. qft_spec 3 @ classical_phase_adder_spec 3 k @ inverse_gate (qft_spec 3)"
  let ?r = "complex_of_real (sqrt 2)"
  have branch: "apply_gate (?A @ ?C 1 @ ?C 2) (ket (reg_index 3 0 s))
      = ket (reg_index 3 ((((0 + s) mod 2 ^ 3 + 1) mod 2 ^ 3 + 2) mod 2 ^ 3) s)" if "s < 2 ^ 2" for s
    unfolding apply_gate_append [of ?A] apply_gate_append [of "?C 1"]
    by (simp only: adder_core [OF _ that] classical_adder_core zero_less_power zero_less_numeral
        mod_less_divisor)
  have k0: "ket 0 = ket (reg_index 3 0 0)" and k8: "ket 8 = ket (reg_index 3 0 1)"
    by (simp_all add: reg_index_def)
  have b0: "apply_gate (?A @ ?C 1 @ ?C 2) (ket 0) = ket (reg_index 3 3 0)"
    unfolding k0 using branch [of 0] by simp
  have b1: "apply_gate (?A @ ?C 1 @ ?C 2) (ket 8) = ket (reg_index 3 4 1)"
    unfolding k8 using branch [of 1] by simp
  define phi where "phi = (\<lambda>b. 1 / ?r * ket (reg_index 3 3 0) b + 1 / ?r * ket (reg_index 3 4 1) b)"
  define qc where "qc = \<lparr>num_qubits = 5, data = H 3 # ?A @ ?C 1 @ ?C 2\<rparr>"
  have mc: "main_circuit = Inr qc"
    unfolding qc_def by (rule main_circuit_eq)
  have d: "data qc = H 3 # ?A @ ?C 1 @ ?C 2"
    by (simp only: qc_def circuit.select_convs)
  have fin: "apply_gate (data qc) (ket 0) = phi"
    unfolding d phi_def by (simp only: apply_gate_Cons H_ket_0 apply_gate_linear b0 b1)
  have half: "(cmod (1 / ?r))\<^sup>2 = 1 / 2"
    by (simp add: norm_divide power_divide)
  have p: "prob phi b = (if b = 3 \<or> b = 12 then 1 / 2 else 0)" for b
    using half by (auto simp: phi_def prob_def ket_def reg_index_def)
  have four: "{..<4::nat} = {0, 1, 2, 3}" by auto
  have "prob phi (reg_index 3 3 0) = 1 / 2" "prob phi (reg_index 3 4 1) = 1 / 2"
    "(\<Sum>s<4. prob phi (reg_index 3 3 s)) = 1 / 2" "(\<Sum>s<4. prob phi (reg_index 3 4 s)) = 1 / 2"
    by (simp_all add: p four reg_index_def)
  then show ?thesis
    using mc fin unfolding phi_def [symmetric] by (intro exI [of _ qc]) (simp only: phi_def simp_thms)
qed


end
